theory Spec2Isabelle
  imports Complex_Main
begin

section \<open>Strings and character classes\<close>

text \<open>
  A JavaScript string is a sequence of UTF-16 code units; \<open>s.length\<close>, \<open>s[i]\<close>,
  \<open>slice\<close> and the regular expressions of the server (none has the \<open>u\<close> flag) all work
  on code units. A string is therefore a list of code-unit values. \<open>js\<close> reads an ASCII
  literal as such a list.
\<close>

type_synonym jstring = "nat list"

definition js :: "string \<Rightarrow> jstring" where
  "js s = map of_char s"

text \<open>The regular-expression classes \<open>[0-9]\<close>, \<open>[A-Z]\<close>, \<open>[a-z]\<close>, \<open>[A-Za-z]\<close>,
  \<open>[A-Za-z0-9]\<close> and \<open>\w\<close>.\<close>

definition is_digit :: "nat \<Rightarrow> bool" where
  "is_digit c = (48 \<le> c \<and> c \<le> 57)"

definition is_upper :: "nat \<Rightarrow> bool" where
  "is_upper c = (65 \<le> c \<and> c \<le> 90)"

definition is_lower :: "nat \<Rightarrow> bool" where
  "is_lower c = (97 \<le> c \<and> c \<le> 122)"

definition is_alpha :: "nat \<Rightarrow> bool" where
  "is_alpha c = (is_upper c \<or> is_lower c)"

definition is_alnum :: "nat \<Rightarrow> bool" where
  "is_alnum c = (is_alpha c \<or> is_digit c)"

definition is_word :: "nat \<Rightarrow> bool" where
  "is_word c = (is_alnum c \<or> c = 95)"

text \<open>
  \<open>\s\<close>, which is also what \<open>String.prototype.trim\<close> removes: the ECMAScript WhiteSpace
  and LineTerminator code points (tab, LF, VT, FF, CR, space, U+00A0, U+1680,
  U+2000..U+200A, U+2028, U+2029, U+202F, U+205F, U+3000, U+FEFF).
\<close>

definition is_space :: "nat \<Rightarrow> bool" where
  "is_space c = (c = 9 \<or> c = 10 \<or> c = 11 \<or> c = 12 \<or> c = 13 \<or> c = 32 \<or> c = 160 \<or>
     c = 5760 \<or> (8192 \<le> c \<and> c \<le> 8202) \<or> c = 8232 \<or> c = 8233 \<or> c = 8239 \<or>
     c = 8287 \<or> c = 12288 \<or> c = 65279)"

text \<open>\<open>[.,;:!?]\<close>, \<open>[,;:!?]\<close>, \<open>[)\]]\<close> and \<open>[ \t]\<close>.\<close>

definition is_punct :: "nat \<Rightarrow> bool" where
  "is_punct c = (c = 46 \<or> c = 44 \<or> c = 59 \<or> c = 58 \<or> c = 33 \<or> c = 63)"

definition is_medial :: "nat \<Rightarrow> bool" where
  "is_medial c = (c = 44 \<or> c = 59 \<or> c = 58 \<or> c = 33 \<or> c = 63)"

definition is_closer :: "nat \<Rightarrow> bool" where
  "is_closer c = (c = 41 \<or> c = 93)"

definition is_blank :: "nat \<Rightarrow> bool" where
  "is_blank c = (c = 32 \<or> c = 9)"

definition trim :: "jstring \<Rightarrow> jstring" where
  "trim s = rev (dropWhile is_space (rev (dropWhile is_space s)))"

section \<open>The regular-expression replacements of the text assembly\<close>

text \<open>
  Each global \<open>replace\<close> scans the string from the left, replaces the leftmost match and
  goes on behind it; none of the patterns matches the empty string.

  \<open>.replace(/\s+([.,;:!?])/g, "$1")\<close>: a run of white space is removed when the
  character behind it is one of \<open>.,;:!?\<close>. A match starts at the first white-space
  character of a maximal run (a shorter \<open>\s+\<close> would be followed by white space, never by
  punctuation), so a white-space character is deleted exactly when the rest of its run is
  followed by punctuation.
\<close>

fun strip_space_before_punct :: "jstring \<Rightarrow> jstring" where
  "strip_space_before_punct [] = []"
| "strip_space_before_punct (c # cs) =
     (if is_space c \<and> (case dropWhile is_space cs of [] \<Rightarrow> False | p # _ \<Rightarrow> is_punct p)
      then strip_space_before_punct cs
      else c # strip_space_before_punct cs)"

text \<open>\<open>.replace(/\r\n?/g, "\n")\<close>\<close>

fun unify_newlines :: "jstring \<Rightarrow> jstring" where
  "unify_newlines (c # d # cs) =
     (if c = 13 then (if d = 10 then 10 # unify_newlines cs else 10 # unify_newlines (d # cs))
      else c # unify_newlines (d # cs))"
| "unify_newlines [c] = [if c = 13 then 10 else c]"
| "unify_newlines [] = []"

text \<open>\<open>.replace(/([A-Za-z0-9])\.([A-Za-z])/g, "$1. $2")\<close>: the match consumes the letter
  behind the period, so the scan goes on behind that letter.\<close>

fun space_after_period :: "jstring \<Rightarrow> jstring" where
  "space_after_period (a # b # c # cs) =
     (if is_alnum a \<and> b = 46 \<and> is_alpha c then a # 46 # 32 # c # space_after_period cs
      else a # space_after_period (b # c # cs))"
| "space_after_period cs = cs"

text \<open>\<open>.replace(/([,;:!?])(?=[A-Za-z0-9(])/g, "$1 ")\<close>: the lookahead consumes nothing.\<close>

fun space_after_medial :: "jstring \<Rightarrow> jstring" where
  "space_after_medial (a # b # cs) =
     (if is_medial a \<and> (is_alnum b \<or> b = 40) then a # 32 # space_after_medial (b # cs)
      else a # space_after_medial (b # cs))"
| "space_after_medial cs = cs"

text \<open>
  \<open>.replace(/\be\. ?g\./gi, "e.g.")\<close>, \<open>.replace(/\bi\. ?e\./gi, "i.e.")\<close> and
  \<open>.replace(/\b([A-Z])\. ?([A-Z])\./g, "$1.$2.")\<close> have one shape: at a word boundary a
  letter accepted by \<open>p\<close>, a period, an optional space, a letter accepted by \<open>q\<close>, a period.
  \<open>r\<close> builds the replacement from the two letters. The flag \<open>pw\<close> says whether the
  character before the current position is a word character: the first letter is one, so
  \<open>\b\<close> holds exactly when \<open>pw\<close> is false. A match ends with a period, after which \<open>pw\<close> is
  false again.
\<close>

fun tighten_pair :: "(nat \<Rightarrow> bool) \<Rightarrow> (nat \<Rightarrow> bool) \<Rightarrow> (nat \<Rightarrow> nat \<Rightarrow> jstring) \<Rightarrow> bool \<Rightarrow>
    jstring \<Rightarrow> jstring" where
  "tighten_pair p q r pw (a # b # c # d # e # cs) =
     (if \<not> pw \<and> p a \<and> b = 46 \<and> c = 32 \<and> q d \<and> e = 46 then r a d @ tighten_pair p q r False cs
      else if \<not> pw \<and> p a \<and> b = 46 \<and> q c \<and> d = 46 then r a c @ tighten_pair p q r False (e # cs)
      else a # tighten_pair p q r (is_word a) (b # c # d # e # cs))"
| "tighten_pair p q r pw [a, b, c, d] =
     (if \<not> pw \<and> p a \<and> b = 46 \<and> q c \<and> d = 46 then r a c else [a, b, c, d])"
| "tighten_pair p q r pw cs = cs"

definition eg_abbrev :: "jstring \<Rightarrow> jstring" where
  "eg_abbrev = tighten_pair (\<lambda>c. c = 101 \<or> c = 69) (\<lambda>c. c = 103 \<or> c = 71)
     (\<lambda>_ _. [101, 46, 103, 46]) False"

definition ie_abbrev :: "jstring \<Rightarrow> jstring" where
  "ie_abbrev = tighten_pair (\<lambda>c. c = 105 \<or> c = 73) (\<lambda>c. c = 101 \<or> c = 69)
     (\<lambda>_ _. [105, 46, 101, 46]) False"

definition tighten_initials :: "jstring \<Rightarrow> jstring" where
  "tighten_initials = tighten_pair is_upper is_upper (\<lambda>x y. [x, 46, y, 46]) False"

text \<open>\<open>.replace(/[ \t]{2,}/g, " ")\<close>\<close>

function collapse_blanks :: "jstring \<Rightarrow> jstring" where
  "collapse_blanks (a # b # cs) =
     (if is_blank a \<and> is_blank b then 32 # collapse_blanks (dropWhile is_blank cs)
      else a # collapse_blanks (b # cs))"
| "collapse_blanks [a] = [a]"
| "collapse_blanks [] = []"
  by pat_completeness auto
termination
  by (relation "measure length") (auto simp: less_Suc_eq_le intro: le_trans [OF length_dropWhile_le])

text \<open>\<open>.replace(/\. \./g, ". ")\<close>\<close>

fun collapse_dot_dot :: "jstring \<Rightarrow> jstring" where
  "collapse_dot_dot (a # b # c # cs) =
     (if a = 46 \<and> b = 32 \<and> c = 46 then 46 # 32 # collapse_dot_dot cs
      else a # collapse_dot_dot (b # c # cs))"
| "collapse_dot_dot cs = cs"

section \<open>smartJoin and normalizeOutputText\<close>

definition needSpace :: "nat \<Rightarrow> nat \<Rightarrow> bool" where
  "needSpace prev next =
     ((is_word prev \<and> is_word next) \<or>
      (is_closer prev \<and> is_word next) \<or>
      (is_punct prev \<and> \<not> (is_space next \<or> is_punct next \<or> is_closer next)))"

text \<open>The loop of \<open>smartJoin\<close> over the parts, with the accumulated \<open>out\<close>. The parts are
  strings, as the chunks collected by the extractor are.\<close>

fun smartJoin_loop :: "jstring \<Rightarrow> jstring list \<Rightarrow> jstring" where
  "smartJoin_loop out [] = out"
| "smartJoin_loop out (s # parts) =
     (if s = [] then smartJoin_loop out parts
      else if out = [] then smartJoin_loop s parts
      else smartJoin_loop (out @ (if needSpace (last out) (hd s) then [32] else []) @ s) parts)"

definition smartJoin :: "jstring list \<Rightarrow> jstring" where
  "smartJoin parts = strip_space_before_punct (smartJoin_loop [] parts)"

definition normalizeOutputText :: "jstring \<Rightarrow> jstring" where
  "normalizeOutputText s =
     (if s = [] then s
      else collapse_dot_dot (collapse_blanks (tighten_initials (ie_abbrev (eg_abbrev
             (strip_space_before_punct (space_after_medial (space_after_period
                (unify_newlines s)))))))))"

section \<open>Response payloads\<close>

text \<open>
  The payload handed to the extractor is whatever \<open>JSON.parse\<close> returned: null, a
  boolean, a number, a string, an array or an object. \<open>JUndefined\<close> is the result of
  reading a property that is not there. An object is the list of its own properties,
  one entry for each key.
  Numbers are finite reals here; the extractor only tests them for zero and prints them.
\<close>

datatype error = TypeError | UpstreamError jstring

datatype jsval = JUndefined | JNull | JBool bool | JNum real | JStr jstring
  | JArr "jsval list" | JObj "(jstring \<times> jsval) list"

datatype jstype = TUndefined | TObject | TBoolean | TNumber | TString

fun typeof :: "jsval \<Rightarrow> jstype" where
  "typeof JUndefined = TUndefined"
| "typeof JNull = TObject"
| "typeof (JBool _) = TBoolean"
| "typeof (JNum _) = TNumber"
| "typeof (JStr _) = TString"
| "typeof (JArr _) = TObject"
| "typeof (JObj _) = TObject"

fun truthy :: "jsval \<Rightarrow> bool" where
  "truthy JUndefined = False"
| "truthy JNull = False"
| "truthy (JBool b) = b"
| "truthy (JNum x) = (x \<noteq> 0)"
| "truthy (JStr s) = (s \<noteq> [])"
| "truthy (JArr _) = True"
| "truthy (JObj _) = True"

fun isArray :: "jsval \<Rightarrow> bool" where
  "isArray (JArr _) = True"
| "isArray _ = False"

fun elements :: "jsval \<Rightarrow> jsval list" where
  "elements (JArr xs) = xs"
| "elements _ = []"

fun str_of :: "jsval \<Rightarrow> jstring" where
  "str_of (JStr s) = s"
| "str_of _ = []"

text \<open>
  Reading a property \<open>v.k\<close> or \<open>v[k]\<close>: a TypeError on \<open>null\<close> and \<open>undefined\<close>, the own
  property of an object, and \<open>undefined\<close> where there is none. The keys the server reads
  (\<open>output_text\<close>, \<open>role\<close>, \<open>type\<close>, \<open>status\<close>, ...) are not properties of the built-in
  prototypes, so nothing is inherited. \<open>opt_get\<close> is the optional chaining \<open>v?.k\<close>.
\<close>

fun get_prop :: "jsval \<Rightarrow> jstring \<Rightarrow> error + jsval" where
  "get_prop JUndefined k = Inl TypeError"
| "get_prop JNull k = Inl TypeError"
| "get_prop (JObj fs) k = Inr (case map_of fs k of Some v \<Rightarrow> v | None \<Rightarrow> JUndefined)"
| "get_prop _ k = Inr JUndefined"

fun opt_get :: "jsval \<Rightarrow> jstring \<Rightarrow> error + jsval" where
  "opt_get JUndefined k = Inr JUndefined"
| "opt_get JNull k = Inr JUndefined"
| "opt_get v k = get_prop v k"

text \<open>
  The string conversion that \<open>Array.prototype.join\<close> applies to each element. A plain
  object prints as \<open>[object Object]\<close> through \<open>Object.prototype.toString\<close>; an object with
  an own property \<open>toString\<close> shadows that method with a value that is not callable (no
  JSON value is), \<open>valueOf\<close> gives the object back, and the conversion throws a TypeError.
  An array prints as its elements joined by commas; \<open>null\<close> and \<open>undefined\<close> elements
  print as nothing. \<open>f\<close> is \<open>Number.prototype.toString\<close>.
\<close>

fun ToString :: "(real \<Rightarrow> jstring) \<Rightarrow> jsval \<Rightarrow> error + jstring"
  and array_join :: "(real \<Rightarrow> jstring) \<Rightarrow> jstring \<Rightarrow> jsval list \<Rightarrow> error + jstring" where
  "ToString f JUndefined = Inr (js ''undefined'')"
| "ToString f JNull = Inr (js ''null'')"
| "ToString f (JBool b) = Inr (if b then js ''true'' else js ''false'')"
| "ToString f (JNum x) = Inr (f x)"
| "ToString f (JStr s) = Inr s"
| "ToString f (JArr xs) = array_join f (js '','') xs"
| "ToString f (JObj fs) =
     (if map_of fs (js ''toString'') \<noteq> None then Inl TypeError else Inr (js ''[object Object]''))"
| "array_join f sep [] = Inr []"
| "array_join f sep (x # xs) =
     (case (if x = JUndefined \<or> x = JNull then Inr [] else ToString f x) of
        Inl e \<Rightarrow> Inl e
      | Inr s \<Rightarrow> (if xs = [] then Inr s
                 else case array_join f sep xs of Inl e \<Rightarrow> Inl e | Inr t \<Rightarrow> Inr (s @ sep @ t)))"

section \<open>extractResponseText\<close>

text \<open>Results of a sequence of steps: the first exception wins, otherwise the collected
  chunks in order.\<close>

fun seqE :: "('e + 'a list) list \<Rightarrow> 'e + 'a list" where
  "seqE [] = Inr []"
| "seqE (r # rs) =
     (case r of Inl e \<Rightarrow> Inl e
      | Inr xs \<Rightarrow> (case seqE rs of Inl e \<Rightarrow> Inl e | Inr ys \<Rightarrow> Inr (xs @ ys)))"

text \<open>\<open>push\<close> appends to \<open>chunks\<close>; here it returns what it appends.\<close>

definition push :: "jsval \<Rightarrow> jstring list" where
  "push s = (if truthy s \<and> typeof s = TString then [str_of s] else [])"

definition candidate_keys :: "jstring list" where
  "candidate_keys = [js ''output_text'', js ''text'', js ''content'', js ''value'', js ''message'']"

definition container_keys :: "jstring list" where
  "container_keys = [js ''output'', js ''content'', js ''message'', js ''messages'', js ''choices'',
     js ''arguments'', js ''items'', js ''parts'', js ''data'']"

definition collectable :: "jsval \<Rightarrow> jstring \<Rightarrow> jsval \<Rightarrow> bool" where
  "collectable nextRole k ty =
     (nextRole = JStr (js ''assistant'') \<or> k = js ''output_text'' \<or> ty = JStr (js ''output_text'') \<or>
      ty = JStr (js ''output_text_delta'') \<or> ty = JStr (js ''text'') \<or> ty = JStr (js ''refusal''))"

text \<open>\<open>visit\<close> with the guards of the source, returning the chunks it pushes in order.\<close>

function visit :: "jsval \<Rightarrow> jsval \<Rightarrow> error + jstring list" where
  "visit node role =
     (if node = JNull \<or> node = JUndefined then Inr []
      else if typeof node = TString then Inr (push node)
      else if isArray node then seqE (map (\<lambda>n. visit n role) (elements node))
      else if typeof node \<noteq> TObject then Inr []
      else (case get_prop node (js ''role'') of Inl e \<Rightarrow> Inl e | Inr r \<Rightarrow>
            (case get_prop node (js ''type'') of Inl e \<Rightarrow> Inl e | Inr ty \<Rightarrow>
              (let nextRole = (if typeof r = TString then r else role) in
               seqE (map (\<lambda>k. case get_prop node k of Inl e \<Rightarrow> Inl e
                          | Inr v \<Rightarrow> Inr (if typeof v = TString \<and> collectable nextRole k ty
                                         then push v else []))
                        candidate_keys
                     @ [case get_prop node (js ''delta'') of Inl e \<Rightarrow> Inl e
                        | Inr d \<Rightarrow> (if truthy d
                                     then (if typeof d = TString then Inr (push d) else visit d nextRole)
                                     else Inr [])]
                     @ map (\<lambda>k. case get_prop node k of Inl e \<Rightarrow> Inl e
                             | Inr v \<Rightarrow> (if truthy v then visit v nextRole else Inr []))
                        container_keys)))))"
  by pat_completeness auto
termination
proof (relation "measure (\<lambda>(node, role). size node)")
  have own: "size v < Suc (size_list (size_prod (\<lambda>_. 0) size) fs)"
    if "map_of fs k = Some v" for fs :: "(jstring \<times> jsval) list" and k v
    using that by (induction fs) (auto split: if_splits)
  have child: "size v < size node" if "get_prop node k = Inr v" "truthy v" for node k v
    using that by (cases node) (auto split: option.splits dest: own)
  have elem: "size n < size node" if "n \<in> set (elements node)" for n node
    using that by (cases node) (auto simp: less_Suc_eq_le size_list_estimation')
  show "wf (measure (\<lambda>(node, role). size node))" by simp
  show "((n, role), (node, role)) \<in> measure (\<lambda>(node, role). size node)"
    if "n \<in> set (elements node)" for node role n
    using that by (simp add: elem)
  show "((d, nextRole), (node, role)) \<in> measure (\<lambda>(node, role). size node)"
    if "get_prop node (js ''delta'') = Inr d" "truthy d" for node role d nextRole
    using that by (simp add: child)
  show "((v, nextRole), (node, role)) \<in> measure (\<lambda>(node, role). size node)"
    if "get_prop node k = Inr v" "truthy v" for node role v nextRole k
    using that by (simp add: child)
qed

declare visit.simps [simp del]

text \<open>The debug log of an empty extract has no effect on the result and is left out.\<close>

definition extractResponseText :: "(real \<Rightarrow> jstring) \<Rightarrow> jsval \<Rightarrow> error + jstring" where
  "extractResponseText numToString data =
     (case opt_get data (js ''output_text'') of Inl e \<Rightarrow> Inl e | Inr ot \<Rightarrow>
        if typeof ot = TString \<and> truthy ot then Inr (normalizeOutputText (str_of ot))
        else if isArray ot \<and> elements ot \<noteq> [] then
          (case array_join numToString [] (elements ot) of Inl e \<Rightarrow> Inl e
           | Inr s \<Rightarrow> Inr (normalizeOutputText s))
        else (case visit data JNull of Inl e \<Rightarrow> Inl e
              | Inr chunks \<Rightarrow> Inr (trim (normalizeOutputText (smartJoin chunks)))))"

definition getIncompleteReason :: "jsval \<Rightarrow> error + jsval" where
  "getIncompleteReason data =
     (if \<not> truthy data \<or> typeof data \<noteq> TObject then Inr JNull
      else (case get_prop data (js ''status'') of Inl e \<Rightarrow> Inl e | Inr st \<Rightarrow>
        if st = JStr (js ''incomplete'') then
          (case opt_get data (js ''incomplete_details'') of Inl e \<Rightarrow> Inl e | Inr det \<Rightarrow>
            (case opt_get det (js ''reason'') of Inl e \<Rightarrow> Inl e
             | Inr r \<Rightarrow> Inr (if truthy r then r else JStr (js ''unknown''))))
        else Inr JNull))"

section \<open>Token budgets\<close>

text \<open>
  A token budget is an integer, or a value that \<open>Number.isFinite\<close> rejects (\<open>NaN\<close>, an
  infinity, \<open>undefined\<close>). \<open>MAX_TOKEN_CAP\<close> is
  \<open>Math.max(128, Number(process.env.RESP_MAX_TOKENS_CAP || 3500))\<close> for a configured
  integer. \<open>grow\<close> is \<open>Math.round(tokens * 1.25)\<close>: \<open>Math.round x\<close> is \<open>\<lfloor>x + 1/2\<rfloor>\<close>, and
  \<open>\<lfloor>5 t / 4 + 1 / 2\<rfloor> = (5 t + 2) div 4\<close>. The doubles of the source compute exactly this
  for budgets and caps of magnitude up to \<open>2^50\<close> (the default cap is 3500); beyond
  that they round, which the integers here do not follow.
\<close>

datatype tok = Fin int | NonFinite

definition MAX_TOKEN_CAP :: "int \<Rightarrow> int" where
  "MAX_TOKEN_CAP configured = max 128 configured"

definition clampTokens :: "int \<Rightarrow> tok \<Rightarrow> int" where
  "clampTokens configured n =
     max 64 (min (MAX_TOKEN_CAP configured) (case n of Fin t \<Rightarrow> t | NonFinite \<Rightarrow> 1500))"

fun grow :: "tok \<Rightarrow> tok" where
  "grow (Fin t) = Fin ((5 * t + 2) div 4)"
| "grow NonFinite = NonFinite"

section \<open>Records of the retrieval index\<close>

text \<open>
  A score is a JavaScript number: a real (in place of a double) or \<open>NaN\<close>.
\<close>

datatype number = Num real | NaN

text \<open>
  A record of the index, a record with its score (\<open>{...r, score}\<close>) and a returned chunk
  share \<open>title\<close>, \<open>file\<close> (here \<open>fileName\<close>) and \<open>content\<close>.
\<close>

record doc =
  title :: jstring
  fileName :: jstring
  content :: jstring

record rag_record = doc +
  embedding :: "real list"

record chunk = doc +
  score :: number

record rag_index =
  records :: "rag_record list option"

section \<open>Messages and one completion call\<close>

datatype role = System | User | Assistant

record message =
  role :: role
  content :: jstring

fun role_upper :: "role \<Rightarrow> jstring" where
  "role_upper System = js ''SYSTEM''"
| "role_upper User = js ''USER''"
| "role_upper Assistant = js ''ASSISTANT''"

text \<open>\<open>xs.join(sep)\<close> on strings.\<close>

fun intercalate :: "jstring \<Rightarrow> jstring list \<Rightarrow> jstring" where
  "intercalate sep [] = []"
| "intercalate sep [x] = x"
| "intercalate sep (x # y # ys) = x @ sep @ intercalate sep (y # ys)"

definition messagesToPlainString :: "message list \<Rightarrow> jstring" where
  "messagesToPlainString messages =
     intercalate [10, 10] (map (\<lambda>m. role_upper (role m) @ [58, 10] @ content m) messages)"

text \<open>
  The request body (the model name is a constant and left out) and the result of
  \<open>callOnce\<close> (the raw payload is not used by the callers and left out).
\<close>

record request =
  input :: jstring
  max_output_tokens :: int

text \<open>The field \<open>text\<close> of the result is \<open>out_text\<close> here.\<close>

record completion =
  out_text :: jstring
  incompleteReason :: jsval

text \<open>
  The environment of a run: the configured cap, \<open>Number.prototype.toString\<close>, and the
  network. The network is the sequence of outcomes of the calls of \<open>fetchJSON\<close>, the
  \<open>k\<close>-th being the parsed payload or the exception of the \<open>k\<close>-th call (a missing key, a
  response that is not ok). The requests sent so far are threaded through as \<open>sent\<close>.
\<close>

record env =
  configured_cap :: int
  numToString :: "real \<Rightarrow> jstring"
  fetchJSON :: "nat \<Rightarrow> error + jsval"

text \<open>What the \<open>k\<close>-th call gives back to \<open>callOnce\<close>: the exception of the fetch, or the
  text and the truncation reason read from the payload.\<close>

definition outcome :: "env \<Rightarrow> nat \<Rightarrow> error + completion" where
  "outcome E k =
     (case fetchJSON E k of Inl e \<Rightarrow> Inl e | Inr data \<Rightarrow>
        (case extractResponseText (numToString E) data of Inl e \<Rightarrow> Inl e | Inr t \<Rightarrow>
          (case getIncompleteReason data of Inl e \<Rightarrow> Inl e
           | Inr reason \<Rightarrow> Inr \<lparr>out_text = t, incompleteReason = reason\<rparr>)))"

definition callOnce :: "env \<Rightarrow> request list \<Rightarrow> message list \<Rightarrow> tok \<Rightarrow>
    request list \<times> (error + completion)" where
  "callOnce E sent messages tokens =
     (let inputStr = messagesToPlainString messages;
          body = \<lparr>input = inputStr, max_output_tokens = clampTokens (configured_cap E) tokens\<rparr>
      in (sent @ [body], outcome E (length sent)))"

section \<open>completeWithAutoContinue\<close>

text \<open>The variables of the loop.\<close>

record cont_state =
  accu :: jstring
  baseMessages :: "message list"
  lastReason :: jsval
  tokens :: tok

definition continue_prompt :: jstring where
  "continue_prompt = js ''Continue from where you stopped. Keep the same structure and style.''"

text \<open>
  One iteration of the loop body: the call, the update of \<open>acc\<close> and \<open>lastReason\<close>, and
  either the \<open>break\<close> (\<open>True\<close>) or the preparation of the next round.
\<close>

definition auto_round :: "env \<Rightarrow> message list \<Rightarrow> request list \<Rightarrow> cont_state \<Rightarrow>
    request list \<times> (error + bool \<times> cont_state)" where
  "auto_round E messages sent s =
     (case callOnce E sent (baseMessages s) (tokens s) of
        (sent', Inl e) \<Rightarrow> (sent', Inl e)
      | (sent', Inr c) \<Rightarrow>
          (let s1 = s\<lparr>accu := (if out_text c \<noteq> [] then accu s @ (if accu s \<noteq> [] then [10] else []) @ out_text c
                             else accu s),
                     lastReason := incompleteReason c\<rparr>
           in if incompleteReason c \<noteq> JStr (js ''max_output_tokens'') then (sent', Inr (True, s1))
              else (sent', Inr (False,
                     s1\<lparr>baseMessages := messages @
                           [\<lparr>role = Assistant, content = out_text c\<rparr>,
                            \<lparr>role = User, content = continue_prompt\<rparr>],
                        tokens := Fin (clampTokens (configured_cap E) (grow (tokens s)))\<rparr>))))"

text \<open>\<open>for (let i = 0; i < Math.max(1, rounds); i++)\<close>, with \<open>m = Math.max(1, rounds)\<close>.\<close>

function auto_loop :: "env \<Rightarrow> message list \<Rightarrow> int \<Rightarrow> int \<Rightarrow> request list \<Rightarrow> cont_state \<Rightarrow>
    request list \<times> (error + cont_state)" where
  "auto_loop E messages m i sent s =
     (if i < m then
        (case auto_round E messages sent s of
           (sent', Inl e) \<Rightarrow> (sent', Inl e)
         | (sent', Inr (stop, s')) \<Rightarrow>
             if stop then (sent', Inr s') else auto_loop E messages m (i + 1) sent' s')
      else (sent, Inr s))"
  by pat_completeness auto
termination
  by (relation "measure (\<lambda>(E, messages, m, i, sent, s). nat (m - i))") auto

declare auto_loop.simps [simp del]

definition completeWithAutoContinue :: "env \<Rightarrow> message list \<Rightarrow> tok \<Rightarrow> int \<Rightarrow>
    request list \<times> (error + completion)" where
  "completeWithAutoContinue E messages tokens0 rounds =
     (case auto_loop E messages (max 1 rounds) 0 []
             \<lparr>accu = [], baseMessages = messages, lastReason = JNull, tokens = tokens0\<rparr> of
        (sent, Inl e) \<Rightarrow> (sent, Inl e)
      | (sent, Inr s) \<Rightarrow> (sent, Inr \<lparr>out_text = accu s, incompleteReason = lastReason s\<rparr>))"

section \<open>retrieveSimilar\<close>

text \<open>
  \<open>cosineSim\<close>: the loop runs over the positions of \<open>a\<close>, the query vector. Where \<open>b\<close> has
  no such position, \<open>b[i]\<close> is \<open>undefined\<close> and \<open>x * y\<close> is \<open>NaN\<close>; from there on \<open>dot\<close> and
  \<open>nb\<close> are \<open>NaN\<close>, and so is the quotient. \<open>cosine_sums\<close> returns the three sums when they
  are numbers and \<open>None\<close> when \<open>dot\<close> and \<open>nb\<close> are \<open>NaN\<close>. The components themselves are
  reals, in place of doubles.
\<close>

fun cosine_sums :: "real list \<Rightarrow> real list \<Rightarrow> real \<times> real \<times> real \<Rightarrow> (real \<times> real \<times> real) option" where
  "cosine_sums [] b t = Some t"
| "cosine_sums (x # a) [] t = None"
| "cosine_sums (x # a) (y # b) (dot, na, nb) = cosine_sums a b (dot + x * y, na + x * x, nb + y * y)"

definition cosineSim :: "real list \<Rightarrow> real list \<Rightarrow> number" where
  "cosineSim a b =
     (case cosine_sums a b (0, 0, 0) of
        None \<Rightarrow> NaN
      | Some (dot, na, nb) \<Rightarrow> Num (dot / (sqrt na * sqrt nb + 1 / 10 ^ 8)))"

text \<open>
  The selection loop over the sorted records, with \<open>results\<close> and \<open>used\<close>.
  \<open>rec.content.slice(0, remaining)\<close> is \<open>take\<close> for the non-negative integer \<open>remaining\<close>.
\<close>

fun select_loop :: "int \<Rightarrow> int \<Rightarrow> chunk list \<Rightarrow> int \<Rightarrow> (rag_record \<times> number) list \<Rightarrow> chunk list" where
  "select_loop topK maxCharsTotal results used [] = results"
| "select_loop topK maxCharsTotal results used ((r, sc) # scored) =
     (if int (length results) \<ge> topK then results
      else let remaining = max 0 (maxCharsTotal - used) in
        if remaining < 200 then results
        else let snippet = take (nat remaining) (doc.content r) in
          select_loop topK maxCharsTotal
            (results @ [\<lparr>title = doc.title r, fileName = doc.fileName r, content = snippet, score = sc\<rparr>])
            (used + int (length snippet)) scored)"

text \<open>\<open>RAG_INDEX.records.map(r => ({ ...r, score: cosineSim(qVec, r.embedding) }))\<close>\<close>

definition with_scores :: "real list \<Rightarrow> rag_record list \<Rightarrow> (rag_record \<times> number) list" where
  "with_scores qVec recs = map (\<lambda>r. (r, cosineSim qVec (embedding r))) recs"

text \<open>
  \<open>.sort((a,b) => b.score - a.score)\<close>. When every score is a number the comparator is
  consistent, and the stable \<open>Array.prototype.sort\<close> sorts by descending score, which is
  ascending negated score. When a score is \<open>NaN\<close> the comparator returns \<open>NaN\<close>, it is not
  a consistent comparator, and ECMAScript leaves the order to the implementation:
  \<open>engine_order\<close> is what the engine at hand does with such an array.
\<close>

fun the_num :: "number \<Rightarrow> real" where
  "the_num (Num x) = x"
| "the_num NaN = 0"

definition sort_by_score :: "((rag_record \<times> number) list \<Rightarrow> (rag_record \<times> number) list) \<Rightarrow>
    (rag_record \<times> number) list \<Rightarrow> (rag_record \<times> number) list" where
  "sort_by_score engine_order scored =
     (if list_all (\<lambda>(r, sc). sc \<noteq> NaN) scored
      then sort_key (\<lambda>(r, sc). - the_num sc) scored
      else engine_order scored)"

definition scored_records :: "((rag_record \<times> number) list \<Rightarrow> (rag_record \<times> number) list) \<Rightarrow>
    real list \<Rightarrow> rag_record list \<Rightarrow> (rag_record \<times> number) list" where
  "scored_records engine_order qVec recs = sort_by_score engine_order (with_scores qVec recs)"

text \<open>The result comes with the list of the queries sent to the embedding endpoint.\<close>

definition retrieveSimilar :: "(jstring \<Rightarrow> error + real list) \<Rightarrow>
    ((rag_record \<times> number) list \<Rightarrow> (rag_record \<times> number) list) \<Rightarrow> rag_index option \<Rightarrow>
    jstring \<Rightarrow> int \<Rightarrow> int \<Rightarrow> jstring list \<times> (error + chunk list)" where
  "retrieveSimilar embedText engine_order RAG_INDEX query topK maxCharsTotal =
     (case RAG_INDEX of None \<Rightarrow> ([], Inr [])
      | Some idx \<Rightarrow> (case records idx of None \<Rightarrow> ([], Inr [])
        | Some recs \<Rightarrow>
            if recs = [] then ([], Inr [])
            else ([query],
                  case embedText query of Inl e \<Rightarrow> Inl e
                  | Inr qVec \<Rightarrow>
                      (let scored = scored_records engine_order qVec recs
                       in Inr (select_loop topK maxCharsTotal [] 0 scored)))))"


section \<open>styleInstruction and buildMessages\<close>

text \<open>
  \<open>toneMap\<close> and \<open>lengthMap\<close> are object literals. \<open>toneMap[tone]\<close> reads an own property
  when \<open>tone\<close> is one of the keys, and otherwise follows the prototype chain to
  \<open>Object.prototype\<close>, whose property names are listed below. Every inherited value is
  truthy: the accessor \<open>__proto__\<close> gives \<open>Object.prototype\<close> itself, which a template
  literal prints as \<open>[object Object]\<close>; the others are built-in functions, which print as
  their source text \<open>native name\<close> (\<open>function Object() { [native code] }\<close> for
  \<open>constructor\<close>).
\<close>

definition toneMap :: "(jstring \<times> jstring) list" where
  "toneMap =
     [(js ''balanced'', js ''Use a balanced, approachable professional tone.''),
      (js ''formal'', js ''Use a formal, executive-ready tone with precise language.''),
      (js ''casual'', js ''Use a casual, conversational tone with plain language.''),
      (js ''bold'', js ''Use a bold, persuasive tone with clear calls to action.''),
      (js ''friendly'', js ''Use a warm, friendly tone that feels encouraging.''),
      (js ''authoritative'',
         js ''Use an authoritative, research-backed tone with confident statements.''),
      (js ''storytelling'', js ''Use a storytelling tone with narrative hooks and vivid examples.'')]"

text \<open>The dash of \<open>1200\<dots>1500\<close> is U+2013.\<close>

definition lengthMap :: "(jstring \<times> jstring) list" where
  "lengthMap =
     [(js ''concise'', js ''Target ~600 words. Be tight and focused.''),
      (js ''standard'', js ''Target ~900 words with clear sections.''),
      (js ''detailed'',
         js ''Target 1200'' @ [8211] @ js ''1500 words with rich detail and examples.''),
      (js ''ultra'', js ''Target 2000+ words with exhaustive coverage and case-style depth.'')]"

definition Object_prototype_keys :: "jstring list" where
  "Object_prototype_keys =
     [js ''constructor'', js ''__defineGetter__'', js ''__defineSetter__'', js ''hasOwnProperty'',
      js ''__lookupGetter__'', js ''__lookupSetter__'', js ''isPrototypeOf'',
      js ''propertyIsEnumerable'', js ''toString'', js ''valueOf'', js ''__proto__'',
      js ''toLocaleString'']"

text \<open>\<open>m[k]\<close> for an object literal \<open>m\<close> of strings, as the string a template literal
  prints; \<open>None\<close> is \<open>undefined\<close>.\<close>

definition literal_get :: "(jstring \<Rightarrow> jstring) \<Rightarrow> (jstring \<times> jstring) list \<Rightarrow> jstring \<Rightarrow>
    jstring option" where
  "literal_get native m k =
     (case map_of m k of Some v \<Rightarrow> Some v
      | None \<Rightarrow> if k \<in> set Object_prototype_keys
                then Some (if k = js ''__proto__'' then js ''[object Object]'' else native k)
                else None)"

text \<open>\<open>`${toneMap[tone] || toneMap.balanced} ${lengthMap[length] || lengthMap.standard}`\<close>:
  the own values are non-empty strings and the inherited ones objects, all truthy.\<close>

definition styleInstruction :: "(jstring \<Rightarrow> jstring) \<Rightarrow> jstring \<Rightarrow> jstring \<Rightarrow> jstring" where
  "styleInstruction native tone len =
     (case literal_get native toneMap tone of Some v \<Rightarrow> v
      | None \<Rightarrow> js ''Use a balanced, approachable professional tone.'')
     @ [32] @
     (case literal_get native lengthMap len of Some v \<Rightarrow> v
      | None \<Rightarrow> js ''Target ~900 words with clear sections.'')"

definition baseSystem :: jstring where
  "baseSystem =
     js ''You are a blog writing assistant trained in Hanza Stephens'' @ [39] @
     js '' voice and style. '' @
     js ''Write as a calm, strategic operator: practical, structured, and insightful. '' @
     js ''Favor clear section headings, bullets, and concrete frameworks over fluff.''"

definition formattingRules :: jstring where
  "formattingRules =
     js ''Format with clean markdown: use H1/H2/H3 headings, bullets, numbered steps, and code fences for templates where helpful. '' @
     js ''Avoid emojis unless the user asks. Keep advice concrete and de-jargonized.''"

text \<open>The decimal digits of \<open>i + 1\<close> in the template literal.\<close>

fun decimal :: "nat \<Rightarrow> jstring" where
  "decimal n = (if n < 10 then [48 + n] else decimal (n div 10) @ [48 + n mod 10])"

declare decimal.simps [simp del]

text \<open>\<open>retrieved.map((r, i) => ...)\<close>, with the index of the first remaining element.\<close>

fun source_blocks :: "nat \<Rightarrow> chunk list \<Rightarrow> jstring list" where
  "source_blocks i [] = []"
| "source_blocks i (r # rs) =
     ([8212] @ js '' Source '' @ decimal (i + 1) @ js '': '' @ doc.title r @ [10] @ trim (doc.content r))
     # source_blocks (i + 1) rs"

text \<open>\<open>buildMessages\<close> of \<open>server.js\<close>, with the style guide loaded at start-up.\<close>

definition buildMessages :: "(jstring \<Rightarrow> jstring) \<Rightarrow> jstring \<Rightarrow> jstring \<Rightarrow> jstring \<Rightarrow> jstring \<Rightarrow>
    chunk list \<Rightarrow> message list" where
  "buildMessages native STYLE_GUIDE userPrompt tone len retrieved =
     (let style = styleInstruction native tone len;
          guide = (if STYLE_GUIDE \<noteq> []
                   then [10, 10] @ js ''### VOICE GUIDE (Highest priority)'' @ [10] @ STYLE_GUIDE @
                        [10, 10] @ js ''Follow this guide strictly.''
                   else []);
          refs = (if retrieved \<noteq> []
                  then [10, 10] @
                       js ''### REFERENCE EXCERPTS (Use for tone & examples; do not cite verbatim)'' @
                       [10] @ intercalate [10, 10] (source_blocks 0 retrieved)
                  else [])
      in [\<lparr>role = System, content = baseSystem @ guide @ [10, 10] @ formattingRules @ refs\<rparr>,
          \<lparr>role = System, content = js ''Stylistic guidance: '' @ style\<rparr>,
          \<lparr>role = User, content = userPrompt\<rparr>])"

section \<open>extractUserRequest\<close>















section \<open>Notions used to state the properties of the continuation loop\<close>

text \<open>\<open>if (text) acc += (acc ? "\n" : "") + text\<close> as a function of \<open>acc\<close> and \<open>text\<close>.\<close>

definition append_text :: "jstring \<Rightarrow> jstring \<Rightarrow> jstring" where
  "append_text a t = (if t \<noteq> [] then a @ (if a \<noteq> [] then [10] else []) @ t else a)"

text \<open>The text of round \<open>k\<close>, whether round \<open>k\<close> reports the truncation reason
  \<open>max_output_tokens\<close>, and the non-empty texts of the first \<open>n\<close> rounds joined by single
  newlines.\<close>

definition round_text :: "env \<Rightarrow> nat \<Rightarrow> jstring" where
  "round_text E k = (case outcome E k of Inl e \<Rightarrow> [] | Inr c \<Rightarrow> out_text c)"

definition truncated :: "env \<Rightarrow> nat \<Rightarrow> bool" where
  "truncated E k = (\<exists>c. outcome E k = Inr c \<and> incompleteReason c = JStr (js ''max_output_tokens''))"

definition joined_texts :: "env \<Rightarrow> nat \<Rightarrow> jstring" where
  "joined_texts E n = intercalate [10] (filter (\<lambda>t. t \<noteq> []) (map (round_text E) [0..<n]))"

text \<open>The request of a round, and the variables after a round that goes on.\<close>

definition body_of :: "env \<Rightarrow> cont_state \<Rightarrow> request" where
  "body_of E s = \<lparr>input = messagesToPlainString (baseMessages s),
                  max_output_tokens = clampTokens (configured_cap E) (tokens s)\<rparr>"

definition continued :: "env \<Rightarrow> message list \<Rightarrow> cont_state \<Rightarrow> completion \<Rightarrow> cont_state" where
  "continued E messages s c =
     s\<lparr>accu := append_text (accu s) (out_text c),
       lastReason := incompleteReason c,
       baseMessages := messages @
         [\<lparr>role = Assistant, content = out_text c\<rparr>, \<lparr>role = User, content = continue_prompt\<rparr>],
       tokens := Fin (clampTokens (configured_cap E) (grow (tokens s)))\<rparr>"

text \<open>A network whose first reply is truncated and whose later replies are complete.\<close>

definition demo_env :: env where
  "demo_env =
     \<lparr>configured_cap = 3500, numToString = (\<lambda>_. []),
      fetchJSON = (\<lambda>k. if k = 0
         then Inr (JObj [(js ''output_text'', JStr (js ''Part one.'')),
                         (js ''status'', JStr (js ''incomplete'')),
                         (js ''incomplete_details'',
                            JObj [(js ''reason'', JStr (js ''max_output_tokens''))])])
         else Inr (JObj [(js ''output_text'', JStr (js ''Part two.'')),
                         (js ''status'', JStr (js ''completed''))]))\<rparr>"

section \<open>Notions used to state the properties of the retrieval\<close>

text \<open>The total length of the contents of a list of chunks.\<close>

definition total_chars :: "chunk list \<Rightarrow> int" where
  "total_chars cs = sum_list (map (\<lambda>c. int (length (doc.content c))) cs)"

text \<open>The chunks that the selection loop adds when \<open>n\<close> chunks are already selected and
  \<open>used\<close> characters are spent.\<close>

fun select_from :: "int \<Rightarrow> int \<Rightarrow> nat \<Rightarrow> int \<Rightarrow> (rag_record \<times> number) list \<Rightarrow> chunk list" where
  "select_from topK maxCharsTotal n used [] = []"
| "select_from topK maxCharsTotal n used ((r, sc) # scored) =
     (if int n \<ge> topK \<or> max 0 (maxCharsTotal - used) < 200 then []
      else \<lparr>title = doc.title r, fileName = doc.fileName r,
            content = take (nat (maxCharsTotal - used)) (doc.content r), score = sc\<rparr>
           # select_from topK maxCharsTotal (Suc n)
               (used + int (length (take (nat (maxCharsTotal - used)) (doc.content r)))) scored)"

text \<open>JavaScript's \<open>>=\<close> and \<open>>\<close> on numbers: false when an operand is \<open>NaN\<close>.\<close>

fun num_ge :: "number \<Rightarrow> number \<Rightarrow> bool" where
  "num_ge (Num x) (Num y) = (x \<ge> y)"
| "num_ge _ _ = False"

fun num_gt :: "number \<Rightarrow> number \<Rightarrow> bool" where
  "num_gt (Num x) (Num y) = (x > y)"
| "num_gt _ _ = False"

section \<open>Notions used to state the properties of extractUserRequest\<close>










section \<open>Notions used to state the properties of the text normalizer\<close>

text \<open>The four replacements of \<open>normalizeOutputText\<close> that look for a period next to a
  letter, in the order of the source: the space after a period between an alphanumeric
  character and a letter, the abbreviation \<open>e.g.\<close>, the abbreviation \<open>i.e.\<close>, and the
  initials.\<close>

definition period_rules :: "jstring \<Rightarrow> jstring" where
  "period_rules t = tighten_initials (ie_abbrev (eg_abbrev (space_after_period t)))"

text \<open>A text on which the other replacements find nothing: no carriage return, no
  \<open>,;:!?\<close> directly before an alphanumeric character or an opening parenthesis, no white
  space before punctuation, no two blanks in a row.\<close>

definition settled :: "jstring \<Rightarrow> bool" where
  "settled t \<longleftrightarrow> 13 \<notin> set t \<and>
     successively (\<lambda>a b. \<not> (is_medial a \<and> (is_alnum b \<or> b = 40))) t \<and>
     successively (\<lambda>a b. \<not> (is_space a \<and> is_punct b)) t \<and>
     successively (\<lambda>a b. \<not> (is_blank a \<and> is_blank b)) t"

section \<open>Properties of the text normalizer\<close>

lemmas char_classes = is_word_def is_alnum_def is_alpha_def is_upper_def is_lower_def
  is_digit_def is_punct_def is_space_def is_closer_def is_medial_def is_blank_def

lemma space_after_period_no_dot: "46 \<notin> set s \<Longrightarrow> space_after_period s = s"
  by (induction s rule: space_after_period.induct) auto

lemma tighten_pair_no_dot: "46 \<notin> set s \<Longrightarrow> tighten_pair p q r pw s = s"
  by (induction p q r pw s rule: tighten_pair.induct) auto

lemma collapse_dot_dot_no_dot: "46 \<notin> set s \<Longrightarrow> collapse_dot_dot s = s"
  by (induction s rule: collapse_dot_dot.induct) auto

lemma set_unify_newlines: "set (unify_newlines s) \<subseteq> insert 10 (set s)"
  by (induction s rule: unify_newlines.induct) auto

lemma set_space_after_medial: "set (space_after_medial s) \<subseteq> insert 32 (set s)"
  by (induction s rule: space_after_medial.induct) auto

lemma set_strip_space_before_punct: "set (strip_space_before_punct s) \<subseteq> set s"
  by (induction s) auto

lemma set_collapse_blanks: "set (collapse_blanks s) \<subseteq> insert 32 (set s)"
proof (induction s rule: collapse_blanks.induct)
  case (1 a b cs)
  have "set (dropWhile is_blank cs) \<subseteq> set cs" by (rule set_dropWhileD [THEN subsetI])
  with 1 show ?case by auto
qed auto

lemma unify_newlines_no_cr: "13 \<notin> set (unify_newlines s)"
  by (induction s rule: unify_newlines.induct) auto

lemma unify_newlines_id: "13 \<notin> set s \<Longrightarrow> unify_newlines s = s"
  by (induction s rule: unify_newlines.induct) auto


lemma hd_space_after_medial: "hd (space_after_medial (b # cs)) = b"
  by (cases cs) auto

lemma space_after_medial_nil: "space_after_medial s = [] \<longleftrightarrow> s = []"
  by (induction s rule: space_after_medial.induct) auto

lemma space_after_medial_settled:
  "successively (\<lambda>a b. \<not> (is_medial a \<and> (is_alnum b \<or> b = 40))) (space_after_medial s)"
proof (induction s rule: space_after_medial.induct)
  case (1 a b cs)
  then show ?case
    by (auto simp: successively_Cons hd_space_after_medial char_classes)
qed auto

lemma space_after_medial_id:
  "successively (\<lambda>a b. \<not> (is_medial a \<and> (is_alnum b \<or> b = 40))) s \<Longrightarrow> space_after_medial s = s"
  by (induction s rule: space_after_medial.induct) auto

lemma punct_not_space: "is_punct p \<Longrightarrow> \<not> is_space p"
  by (auto simp: char_classes)

lemma strip_run:
  "dropWhile is_space s = p # t \<Longrightarrow> is_punct p \<Longrightarrow>
     strip_space_before_punct s = p # strip_space_before_punct t"
proof (induction s)
  case (Cons c cs)
  then show ?case
    by (cases "is_space c") (auto simp: punct_not_space)
qed simp

lemma hd_strip_space_before_punct:
  "strip_space_before_punct s \<noteq> [] \<Longrightarrow>
     hd (strip_space_before_punct s) = hd s \<or> is_punct (hd (strip_space_before_punct s))"
proof (cases s)
  case (Cons c cs)
  show ?thesis
  proof (cases "is_space c \<and> (case dropWhile is_space cs of [] \<Rightarrow> False | p # _ \<Rightarrow> is_punct p)")
    case False
    with Cons show ?thesis by auto
  next
    case True
    then obtain p t where d: "dropWhile is_space cs = p # t" "is_punct p"
      by (auto split: list.splits)
    from strip_run [OF d] True Cons d show ?thesis by simp
  qed
qed simp

lemma strip_keeps_successively:
  assumes "successively Q s" and "\<And>x p. is_punct p \<Longrightarrow> Q x p"
  shows "successively Q (strip_space_before_punct s)"
  using assms(1)
proof (induction s)
  case (Cons c cs)
  from Cons have IH: "successively Q (strip_space_before_punct cs)"
    by (auto simp: successively_Cons)
  show ?case
  proof (cases "is_space c \<and> (case dropWhile is_space cs of [] \<Rightarrow> False | p # _ \<Rightarrow> is_punct p)")
    case True
    with IH show ?thesis by simp
  next
    case False
    then have eq: "strip_space_before_punct (c # cs) = c # strip_space_before_punct cs" by auto
    show ?thesis
    proof (cases "strip_space_before_punct cs = []")
      case True
      with eq show ?thesis by simp
    next
      case ne: False
      then have "cs \<noteq> []" by auto
      with Cons.prems have "Q c (hd cs)" by (auto simp: successively_Cons)
      with hd_strip_space_before_punct [OF ne] assms(2)
      have "Q c (hd (strip_space_before_punct cs))" by auto
      with eq IH ne show ?thesis by (simp add: successively_Cons)
    qed
  qed
qed simp

lemma strip_settled:
  "successively (\<lambda>a b. \<not> (is_space a \<and> is_punct b)) (strip_space_before_punct s)"
proof (induction s)
  case (Cons c cs)
  show ?case
  proof (cases "is_space c \<and> (case dropWhile is_space cs of [] \<Rightarrow> False | p # _ \<Rightarrow> is_punct p)")
    case True
    with Cons show ?thesis by simp
  next
    case False
    then have eq: "strip_space_before_punct (c # cs) = c # strip_space_before_punct cs" by auto
    have "\<not> (is_space c \<and> is_punct (hd (strip_space_before_punct cs)))"
      if ne: "strip_space_before_punct cs \<noteq> []"
    proof (cases cs)
      case Nil
      with ne show ?thesis by simp
    next
      case (Cons x xs)
      show ?thesis
      proof (cases "is_space c")
        case True
        with False have k: "\<not> (case dropWhile is_space cs of [] \<Rightarrow> False | p # _ \<Rightarrow> is_punct p)"
          by simp
        have "strip_space_before_punct cs = x # strip_space_before_punct xs"
          using k Cons by (cases "is_space x") auto
        moreover have "\<not> is_punct x"
          using k Cons by (cases "is_space x") (auto simp: punct_not_space)
        ultimately show ?thesis by simp
      qed simp
    qed
    with eq Cons.IH show ?thesis by (auto simp: successively_Cons)
  qed
qed simp

lemma strip_id:
  "successively (\<lambda>a b. \<not> (is_space a \<and> is_punct b)) s \<Longrightarrow> strip_space_before_punct s = s"
proof (induction s)
  case (Cons c cs)
  then have IH: "strip_space_before_punct cs = cs" by (auto simp: successively_Cons)
  have "\<not> (case dropWhile is_space cs of [] \<Rightarrow> False | p # _ \<Rightarrow> is_punct p)" if "is_space c"
    using that Cons.prems
  proof (induction cs arbitrary: c)
    case (Cons x xs)
    show ?case
    proof (cases "is_space x")
      case True
      with Cons.IH [of x] Cons.prems show ?thesis by (auto simp: successively_Cons)
    next
      case False
      with Cons.prems show ?thesis by (auto simp: successively_Cons)
    qed
  qed simp
  with IH show ?case by auto
qed simp


lemma collapse_blanks_nil: "collapse_blanks s = [] \<longleftrightarrow> s = []"
  by (induction s rule: collapse_blanks.induct) auto

lemma hd_collapse_blanks_keep:
  "s \<noteq> [] \<Longrightarrow> \<not> is_blank (hd s) \<Longrightarrow> hd (collapse_blanks s) = hd s"
  by (induction s rule: collapse_blanks.induct) auto

lemma hd_collapse_blanks:
  "s \<noteq> [] \<Longrightarrow> hd (collapse_blanks s) = hd s \<or> (is_blank (hd s) \<and> hd (collapse_blanks s) = 32)"
  by (induction s rule: collapse_blanks.induct) auto

lemma successively_dropWhile: "successively Q s \<Longrightarrow> successively Q (dropWhile P s)"
  by (induction s) (auto simp: successively_Cons)

lemma blank_run_end:
  "successively Q (x # cs) \<Longrightarrow> is_blank x \<Longrightarrow> dropWhile is_blank cs = y # t \<Longrightarrow>
     \<exists>b. is_blank b \<and> Q b y"
proof (induction cs arbitrary: x)
  case (Cons c cs)
  show ?case
  proof (cases "is_blank c")
    case True
    with Cons.prems have "successively Q (c # cs)" "dropWhile is_blank cs = y # t"
      by (auto simp: successively_Cons)
    from Cons.IH [OF this(1) True this(2)] show ?thesis .
  next
    case False
    with Cons.prems show ?thesis by (auto simp: successively_Cons)
  qed
qed simp

lemma hd_dropWhile_blank: "dropWhile is_blank cs \<noteq> [] \<Longrightarrow> \<not> is_blank (hd (dropWhile is_blank cs))"
  using hd_dropWhile [of is_blank cs] by simp

lemma collapse_blanks_keeps_successively:
  assumes "successively Q s" and "\<And>x. Q x 32" and "\<And>b y. is_blank b \<Longrightarrow> Q b y \<Longrightarrow> Q 32 y"
  shows "successively Q (collapse_blanks s)"
  using assms(1)
proof (induction s rule: collapse_blanks.induct)
  case (1 a b cs)
  show ?case
  proof (cases "is_blank a \<and> is_blank b")
    case True
    let ?t = "dropWhile is_blank cs"
    from 1 True have sb: "successively Q (b # cs)" by simp
    then have "successively Q cs" by (auto simp: successively_Cons)
    then have "successively Q ?t" by (rule successively_dropWhile)
    with 1 True have IH: "successively Q (collapse_blanks ?t)" by simp
    have "Q 32 (hd (collapse_blanks ?t))" if ne: "?t \<noteq> []"
    proof -
      from ne obtain y t where yt: "?t = y # t" by (cases ?t) auto
      from blank_run_end [OF sb _ yt] True obtain b' where "is_blank b'" "Q b' y" by auto
      then have "Q 32 y" by (rule assms(3))
      moreover from hd_dropWhile_blank [OF ne] yt have "\<not> is_blank y" by simp
      with yt have "hd (collapse_blanks ?t) = y"
        using hd_collapse_blanks_keep [of ?t] by simp
      ultimately show ?thesis by simp
    qed
    with IH True show ?thesis
      by (auto simp: successively_Cons collapse_blanks_nil)
  next
    case False
    with 1 have IH: "successively Q (collapse_blanks (b # cs))" by auto
    from 1 have "Q a b" by simp
    with hd_collapse_blanks [of "b # cs"] assms(2)
    have "Q a (hd (collapse_blanks (b # cs)))" by auto
    with IH False show ?thesis by (auto simp: successively_Cons)
  qed
qed auto

lemma collapse_blanks_settled:
  "successively (\<lambda>a b. \<not> (is_blank a \<and> is_blank b)) (collapse_blanks s)"
proof (induction s rule: collapse_blanks.induct)
  case (1 a b cs)
  show ?case
  proof (cases "is_blank a \<and> is_blank b")
    case True
    let ?t = "dropWhile is_blank cs"
    have "\<not> is_blank (hd (collapse_blanks ?t))" if ne: "?t \<noteq> []"
      using hd_dropWhile_blank [OF ne] hd_collapse_blanks_keep [OF ne] by simp
    with 1 True show ?thesis
      by (auto simp: successively_Cons collapse_blanks_nil)
  next
    case False
    have "\<not> (is_blank a \<and> is_blank (hd (collapse_blanks (b # cs))))"
      using False hd_collapse_blanks [of "b # cs"] by auto
    with 1 False show ?thesis by (auto simp: successively_Cons)
  qed
qed auto

lemma collapse_blanks_id:
  "successively (\<lambda>a b. \<not> (is_blank a \<and> is_blank b)) s \<Longrightarrow> collapse_blanks s = s"
  by (induction s rule: collapse_blanks.induct) auto


lemma normalize_no_dot:
  assumes "46 \<notin> set s"
  shows "normalizeOutputText s =
    collapse_blanks (strip_space_before_punct (space_after_medial (unify_newlines s)))"
proof -
  let ?u = "unify_newlines s"
  let ?m = "space_after_medial ?u"
  let ?t = "strip_space_before_punct ?m"
  let ?b = "collapse_blanks ?t"
  from assms set_unify_newlines [of s] have u: "46 \<notin> set ?u" by auto
  with set_space_after_medial [of ?u] have m: "46 \<notin> set ?m" by auto
  with set_strip_space_before_punct [of ?m] have t: "46 \<notin> set ?t" by auto
  with set_collapse_blanks [of ?t] have b: "46 \<notin> set ?b" by auto
  have "normalizeOutputText s = collapse_dot_dot ?b"
    by (simp add: normalizeOutputText_def space_after_period_no_dot [OF u] eg_abbrev_def
        ie_abbrev_def tighten_initials_def tighten_pair_no_dot [OF t])
  with b show ?thesis by (simp add: collapse_dot_dot_no_dot)
qed

lemma pipeline_keeps_absent:
  assumes "c \<notin> set u" and "c \<noteq> 32"
  shows "c \<notin> set (collapse_blanks (strip_space_before_punct (space_after_medial u)))"
proof -
  from assms set_space_after_medial [of u] have "c \<notin> set (space_after_medial u)" by auto
  with set_strip_space_before_punct [of "space_after_medial u"]
  have "c \<notin> set (strip_space_before_punct (space_after_medial u))" by auto
  with assms(2) set_collapse_blanks [of "strip_space_before_punct (space_after_medial u)"]
  show ?thesis by auto
qed

lemma normalize_keeps_no_dot:
  assumes "46 \<notin> set s"
  shows "46 \<notin> set (normalizeOutputText s)"
proof -
  from assms set_unify_newlines [of s] have "46 \<notin> set (unify_newlines s)" by auto
  then show ?thesis
    by (simp add: normalize_no_dot [OF assms] pipeline_keeps_absent)
qed

lemma normalize_idem_no_dot:
  assumes "46 \<notin> set s"
  shows "normalizeOutputText (normalizeOutputText s) = normalizeOutputText s"
proof -
  let ?u = "unify_newlines s"
  let ?m = "space_after_medial ?u"
  let ?t = "strip_space_before_punct ?m"
  let ?b = "collapse_blanks ?t"
  have n: "normalizeOutputText s = ?b" by (rule normalize_no_dot [OF assms])
  have "13 \<notin> set ?b"
    by (rule pipeline_keeps_absent [OF unify_newlines_no_cr]) simp
  then have 1: "unify_newlines ?b = ?b" by (rule unify_newlines_id)
  have "successively (\<lambda>a b. \<not> (is_medial a \<and> (is_alnum b \<or> b = 40))) ?t"
    by (rule strip_keeps_successively [OF space_after_medial_settled]) (auto simp: char_classes)
  then have "successively (\<lambda>a b. \<not> (is_medial a \<and> (is_alnum b \<or> b = 40))) ?b"
    by (rule collapse_blanks_keeps_successively) (auto simp: char_classes)
  then have 2: "space_after_medial ?b = ?b" by (rule space_after_medial_id)
  have "successively (\<lambda>a b. \<not> (is_space a \<and> is_punct b)) ?b"
    by (rule collapse_blanks_keeps_successively [OF strip_settled]) (auto simp: char_classes)
  then have 3: "strip_space_before_punct ?b = ?b" by (rule strip_id)
  have 4: "collapse_blanks ?b = ?b"
    by (rule collapse_blanks_id [OF collapse_blanks_settled])
  from normalize_keeps_no_dot [OF assms] have "46 \<notin> set ?b" by (simp add: n)
  from normalize_no_dot [OF this] have "normalizeOutputText ?b = ?b" by (simp add: 1 2 3 4)
  with n show ?thesis by simp
qed

lemma set_space_after_period: "set (space_after_period s) \<subseteq> insert 32 (set s)"
  by (induction s rule: space_after_period.induct) auto

lemma hd_space_after_period: "hd (space_after_period s) = hd s"
  by (induction s rule: space_after_period.induct) auto

lemma space_after_period_nil: "space_after_period s = [] \<longleftrightarrow> s = []"
  by (induction s rule: space_after_period.induct) auto

lemma space_after_period_keeps_successively:
  assumes "successively Q s" and "Q 46 32" and "\<And>c. is_alpha c \<Longrightarrow> Q 32 c"
  shows "successively Q (space_after_period s)"
  using assms(1)
proof (induction s rule: space_after_period.induct)
  case (1 a b c cs)
  show ?case
  proof (cases "is_alnum a \<and> b = 46 \<and> is_alpha c")
    case True
    with 1 have IH: "successively Q (space_after_period cs)"
      by (auto simp: successively_Cons)
    have "Q c (hd (space_after_period cs))" if "space_after_period cs \<noteq> []"
      using that 1(3) by (auto simp: successively_Cons hd_space_after_period space_after_period_nil)
    with True IH 1(3) assms(2,3) show ?thesis
      by (auto simp: successively_Cons)
  next
    case False
    with 1 have IH: "successively Q (space_after_period (b # c # cs))"
      by (auto simp: successively_Cons)
    from 1(3) have "Q a b" by (auto simp: successively_Cons)
    with False IH show ?thesis
      by (auto simp: successively_Cons hd_space_after_period space_after_period_nil)
  qed
qed auto

lemma tighten_pair_keeps_absent:
  assumes "c \<notin> set s" and "\<And>a b. a \<in> set s \<Longrightarrow> b \<in> set s \<Longrightarrow> c \<notin> set (r a b)"
  shows "c \<notin> set (tighten_pair p q r pw s)"
  using assms
  by (induction p q r pw s rule: tighten_pair.induct) auto

lemma tighten_pair_nil:
  assumes "\<And>a b. r a b \<noteq> []"
  shows "tighten_pair p q r pw s = [] \<longleftrightarrow> s = []"
  using assms by (induction p q r pw s rule: tighten_pair.induct) auto

lemma hd_tighten_pair:
  assumes "\<And>a b. p a \<Longrightarrow> q b \<Longrightarrow> Q x a \<Longrightarrow> Q x (hd (r a b))" and "\<And>a b. r a b \<noteq> []"
    and "s \<noteq> []" and "Q x (hd s)"
  shows "Q x (hd (tighten_pair p q r pw s))"
  using assms(3,4) assms(1,2)
  by (induction p q r pw s rule: tighten_pair.induct) (auto simp: hd_append)

lemma tighten_pair_keeps_successively:
  assumes s: "successively Q s"
    and hd: "\<And>a b x. p a \<Longrightarrow> q b \<Longrightarrow> Q x a \<Longrightarrow> Q x (hd (r a b))"
    and ne: "\<And>a b. r a b \<noteq> []"
    and last: "\<And>a b. last (r a b) = 46"
    and inner: "\<And>a b. p a \<Longrightarrow> q b \<Longrightarrow> successively Q (r a b)"
  shows "successively Q (tighten_pair p q r pw s)"
  using s hd ne last inner
proof (induction p q r pw s rule: tighten_pair.induct)
  case (1 p q r pw a b c d e cs)
  note s = "1.prems"(1) and hd = "1.prems"(2) and ne = "1.prems"(3) and last = "1.prems"(4)
    and inner = "1.prems"(5)
  have H: "Q x (hd (tighten_pair p q r w t))" if "t \<noteq> []" "Q x (hd t)" for x w t
    using hd ne that by (rule hd_tighten_pair [where Q = Q])
  have N: "tighten_pair p q r w t = [] \<longleftrightarrow> t = []" for w t
    using ne by (rule tighten_pair_nil)
  consider (sp) "\<not> pw \<and> p a \<and> b = 46 \<and> c = 32 \<and> q d \<and> e = 46"
    | (ns) "\<not> (\<not> pw \<and> p a \<and> b = 46 \<and> c = 32 \<and> q d \<and> e = 46)" "\<not> pw \<and> p a \<and> b = 46 \<and> q c \<and> d = 46"
    | (no) "\<not> (\<not> pw \<and> p a \<and> b = 46 \<and> c = 32 \<and> q d \<and> e = 46)" "\<not> (\<not> pw \<and> p a \<and> b = 46 \<and> q c \<and> d = 46)"
    by blast
  then show ?case
  proof cases
    case sp
    from s have t: "successively Q cs" by (auto simp: successively_Cons)
    from "1.IH"(1) [OF sp t hd ne last inner]
    have IH: "successively Q (tighten_pair p q r False cs)" .
    have j: "Q (List.last (r a d)) (hd (tighten_pair p q r False cs))" if "cs \<noteq> []"
    proof -
      from s sp that have "Q 46 (hd cs)" by (cases cs) (auto simp: successively_Cons)
      from H [OF that this] last show ?thesis by simp
    qed
    from sp have "tighten_pair p q r pw (a # b # c # d # e # cs) = r a d @ tighten_pair p q r False cs"
      by simp
    with IH inner [of a d] sp j ne show ?thesis
      by (auto simp: successively_append_iff N)
  next
    case ns
    from s have t: "successively Q (e # cs)" by (auto simp: successively_Cons)
    from "1.IH"(2) [OF ns t hd ne last inner]
    have IH: "successively Q (tighten_pair p q r False (e # cs))" .
    have j: "Q (List.last (r a c)) (hd (tighten_pair p q r False (e # cs)))"
    proof -
      from s ns have "Q 46 (hd (e # cs))" by (auto simp: successively_Cons)
      from H [OF _ this] last show ?thesis by simp
    qed
    from ns have "tighten_pair p q r pw (a # b # c # d # e # cs) = r a c @ tighten_pair p q r False (e # cs)"
      by auto
    with IH inner [of a c] ns j ne show ?thesis
      by (auto simp: successively_append_iff N)
  next
    case no
    from s have t: "successively Q (b # c # d # e # cs)" by (auto simp: successively_Cons)
    from "1.IH"(3) [OF no t hd ne last inner]
    have IH: "successively Q (tighten_pair p q r (is_word a) (b # c # d # e # cs))" .
    have j: "Q a (hd (tighten_pair p q r (is_word a) (b # c # d # e # cs)))"
    proof -
      from s have "Q a (hd (b # c # d # e # cs))" by (auto simp: successively_Cons)
      from H [OF _ this] show ?thesis by simp
    qed
    from no have "tighten_pair p q r pw (a # b # c # d # e # cs) = a # tighten_pair p q r (is_word a) (b # c # d # e # cs)"
      by auto
    with IH j show ?thesis
      by (auto simp: successively_Cons N)
  qed
qed auto

lemma collapse_dot_dot_id:
  "successively (\<lambda>a b. \<not> (is_space a \<and> is_punct b)) s \<Longrightarrow> collapse_dot_dot s = s"
  by (induction s rule: collapse_dot_dot.induct) (auto simp: successively_Cons char_classes)


lemma abbrev_keeps_successively:
  assumes s: "successively Q s"
    and letter: "\<And>x a b. is_alpha a \<Longrightarrow> is_alpha b \<Longrightarrow> Q x a \<Longrightarrow> Q x b"
    and dot: "\<And>a. is_alpha a \<Longrightarrow> Q a 46 \<and> Q 46 a"
  shows "successively Q (eg_abbrev s)" and "successively Q (ie_abbrev s)"
    and "successively Q (tighten_initials s)"
proof -
  have l: "is_alpha 101" "is_alpha 103" "is_alpha 105" "is_alpha 69" "is_alpha 71" "is_alpha 73"
    by (simp_all add: char_classes)
  have in4: "successively Q [a, 46, b, 46]" if "is_alpha a" "is_alpha b" for a b
    using dot [OF that(1)] dot [OF that(2)] by (simp add: successively_Cons)
  show "successively Q (eg_abbrev s)"
    unfolding eg_abbrev_def
  proof (rule tighten_pair_keeps_successively [OF s])
    fix a b x :: nat
    assume "a = 101 \<or> a = 69" "Q x a"
    with l letter [of a 101 x] show "Q x (hd [101, 46, 103, 46])" by auto
  next
    show "successively Q [101, 46, 103, 46]" by (rule in4) (rule l)+
  qed simp_all
  show "successively Q (ie_abbrev s)"
    unfolding ie_abbrev_def
  proof (rule tighten_pair_keeps_successively [OF s])
    fix a b x :: nat
    assume "a = 105 \<or> a = 73" "Q x a"
    with l letter [of a 105 x] show "Q x (hd [105, 46, 101, 46])" by auto
  next
    show "successively Q [105, 46, 101, 46]" by (rule in4) (rule l)+
  qed simp_all
  show "successively Q (tighten_initials s)"
    unfolding tighten_initials_def
  proof (rule tighten_pair_keeps_successively [OF s])
    fix a b :: nat
    assume "is_upper a" "is_upper b"
    then show "successively Q [a, 46, b, 46]" by (intro in4) (simp_all add: is_alpha_def)
  qed simp_all
qed

lemma alpha_facts:
  assumes "is_alpha a"
  shows "is_alnum a" "\<not> is_punct a" "\<not> is_space a" "\<not> is_blank a" "\<not> is_medial a"
  using assms by (auto simp: char_classes)

lemma dot_space_facts:
  "\<not> is_medial 46" "\<not> is_space 46" "\<not> is_blank 46" "\<not> is_medial 32"
  by (simp_all add: char_classes)

lemma abbrev_keeps_cr:
  assumes "13 \<notin> set s"
  shows "13 \<notin> set (tighten_initials (ie_abbrev (eg_abbrev s)))"
proof -
  from assms have "13 \<notin> set (eg_abbrev s)"
    unfolding eg_abbrev_def by (rule tighten_pair_keeps_absent) simp
  then have i: "13 \<notin> set (ie_abbrev (eg_abbrev s))"
    unfolding ie_abbrev_def by (rule tighten_pair_keeps_absent) simp
  show ?thesis
    unfolding tighten_initials_def by (rule tighten_pair_keeps_absent [OF i]) (use i in auto)
qed

lemma abbrev_keeps_settled:
  assumes "successively Q s"
    and "\<And>x a b. is_alpha a \<Longrightarrow> is_alpha b \<Longrightarrow> Q x a \<Longrightarrow> Q x b"
    and "\<And>a. is_alpha a \<Longrightarrow> Q a 46 \<and> Q 46 a"
  shows "successively Q (tighten_initials (ie_abbrev (eg_abbrev s)))"
proof -
  have "successively Q (eg_abbrev s)"
    using assms by (rule abbrev_keeps_successively(1))
  then have "successively Q (ie_abbrev (eg_abbrev s))"
    using assms(2,3) by (rule abbrev_keeps_successively(2))
  then show ?thesis
    using assms(2,3) by (rule abbrev_keeps_successively(3))
qed

lemma abbrev_keeps_medial:
  assumes "successively (\<lambda>a b. \<not> (is_medial a \<and> (is_alnum b \<or> b = 40))) s"
  shows "successively (\<lambda>a b. \<not> (is_medial a \<and> (is_alnum b \<or> b = 40)))
    (tighten_initials (ie_abbrev (eg_abbrev s)))"
  using assms by (rule abbrev_keeps_settled) (simp_all add: alpha_facts dot_space_facts)

lemma abbrev_keeps_space:
  assumes "successively (\<lambda>a b. \<not> (is_space a \<and> is_punct b)) s"
  shows "successively (\<lambda>a b. \<not> (is_space a \<and> is_punct b))
    (tighten_initials (ie_abbrev (eg_abbrev s)))"
  using assms by (rule abbrev_keeps_settled) (simp_all add: alpha_facts dot_space_facts)

lemma abbrev_keeps_blank:
  assumes "successively (\<lambda>a b. \<not> (is_blank a \<and> is_blank b)) s"
  shows "successively (\<lambda>a b. \<not> (is_blank a \<and> is_blank b))
    (tighten_initials (ie_abbrev (eg_abbrev s)))"
  using assms by (rule abbrev_keeps_settled) (simp_all add: alpha_facts dot_space_facts)

lemma period_keeps_medial:
  assumes "successively (\<lambda>a b. \<not> (is_medial a \<and> (is_alnum b \<or> b = 40))) s"
  shows "successively (\<lambda>a b. \<not> (is_medial a \<and> (is_alnum b \<or> b = 40))) (space_after_period s)"
  using assms by (rule space_after_period_keeps_successively) (simp_all add: dot_space_facts)

lemma period_keeps_space:
  assumes "successively (\<lambda>a b. \<not> (is_space a \<and> is_punct b)) s"
  shows "successively (\<lambda>a b. \<not> (is_space a \<and> is_punct b)) (space_after_period s)"
  using assms
  by (rule space_after_period_keeps_successively) (simp_all add: alpha_facts dot_space_facts)

lemma period_keeps_blank:
  assumes "successively (\<lambda>a b. \<not> (is_blank a \<and> is_blank b)) s"
  shows "successively (\<lambda>a b. \<not> (is_blank a \<and> is_blank b)) (space_after_period s)"
  using assms
  by (rule space_after_period_keeps_successively) (simp_all add: alpha_facts dot_space_facts)

lemma period_rules_keep_settled:
  assumes "settled t"
  shows "settled (period_rules t)"
proof -
  let ?p = "space_after_period t"
  from assms set_space_after_period [of t] have "13 \<notin> set ?p" by (auto simp: settled_def)
  then have cr: "13 \<notin> set (period_rules t)"
    unfolding period_rules_def by (rule abbrev_keeps_cr)
  from assms show ?thesis
    unfolding settled_def period_rules_def
    by (intro conjI abbrev_keeps_medial abbrev_keeps_space abbrev_keeps_blank period_keeps_medial
        period_keeps_space period_keeps_blank cr [unfolded period_rules_def]) simp_all
qed

lemma normalize_settled: "settled (normalizeOutputText s)"
proof (cases "s = []")
  case True
  then show ?thesis by (simp add: normalizeOutputText_def settled_def)
next
  case False
  let ?u = "unify_newlines s"
  let ?p = "space_after_period ?u"
  let ?m = "space_after_medial ?p"
  let ?t = "strip_space_before_punct ?m"
  let ?n = "tighten_initials (ie_abbrev (eg_abbrev ?t))"
  let ?b = "collapse_blanks ?n"
  from unify_newlines_no_cr [of s] set_space_after_period [of ?u] have "13 \<notin> set ?p" by auto
  with set_space_after_medial [of ?p] have "13 \<notin> set ?m" by auto
  with set_strip_space_before_punct [of ?m] have "13 \<notin> set ?t" by auto
  then have "13 \<notin> set ?n" by (rule abbrev_keeps_cr)
  with set_collapse_blanks [of ?n] have cr: "13 \<notin> set ?b" by auto
  have "successively (\<lambda>a b. \<not> (is_medial a \<and> (is_alnum b \<or> b = 40))) ?t"
    by (rule strip_keeps_successively [OF space_after_medial_settled]) (auto simp: char_classes)
  then have "successively (\<lambda>a b. \<not> (is_medial a \<and> (is_alnum b \<or> b = 40))) ?n"
    by (rule abbrev_keeps_medial)
  then have m: "successively (\<lambda>a b. \<not> (is_medial a \<and> (is_alnum b \<or> b = 40))) ?b"
    by (rule collapse_blanks_keeps_successively) (auto simp: char_classes)
  have "successively (\<lambda>a b. \<not> (is_space a \<and> is_punct b)) ?n"
    by (rule abbrev_keeps_space [OF strip_settled])
  then have s: "successively (\<lambda>a b. \<not> (is_space a \<and> is_punct b)) ?b"
    by (rule collapse_blanks_keeps_successively) (auto simp: char_classes)
  have b: "successively (\<lambda>a b. \<not> (is_blank a \<and> is_blank b)) ?b"
    by (rule collapse_blanks_settled)
  from s have "collapse_dot_dot ?b = ?b" by (rule collapse_dot_dot_id)
  with False have "normalizeOutputText s = ?b" by (simp add: normalizeOutputText_def)
  with cr m s b show ?thesis by (simp add: settled_def)
qed

lemma settled_second_pass:
  assumes "settled t"
  shows "normalizeOutputText t = period_rules t"
proof (cases "t = []")
  case True
  then show ?thesis
    by (simp add: normalizeOutputText_def period_rules_def eg_abbrev_def ie_abbrev_def
        tighten_initials_def)
next
  case False
  let ?p = "space_after_period t"
  let ?n = "period_rules t"
  from assms have u: "unify_newlines t = t" by (simp add: settled_def unify_newlines_id)
  from assms have m: "space_after_medial ?p = ?p"
    by (intro space_after_medial_id period_keeps_medial) (simp add: settled_def)
  from assms have s: "strip_space_before_punct ?p = ?p"
    by (intro strip_id period_keeps_space) (simp add: settled_def)
  from period_rules_keep_settled [OF assms] have k: "settled ?n" .
  then have b: "collapse_blanks ?n = ?n" by (simp add: settled_def collapse_blanks_id)
  from k have d: "collapse_dot_dot ?n = ?n" by (simp add: settled_def collapse_dot_dot_id)
  from False have "normalizeOutputText t = collapse_dot_dot (collapse_blanks (tighten_initials
     (ie_abbrev (eg_abbrev (strip_space_before_punct (space_after_medial (space_after_period
       (unify_newlines t))))))))"
    by (simp add: normalizeOutputText_def)
  also have "\<dots> = collapse_dot_dot (collapse_blanks ?n)"
    by (simp add: u m s period_rules_def)
  also have "\<dots> = ?n" by (simp add: b d)
  finally show ?thesis .
qed

text \<open>
  C4, as stated, fails. \<open>normalizeOutputText("a.b.c")\<close> is \<open>"a. b.c"\<close>, because the match
  \<open>a.b\<close> consumes the \<open>b\<close> that the next match would need, and a second application
  gives \<open>"a. b. c"\<close>. The order of the replacements is a second cause: \<open>"a .b"\<close> becomes
  \<open>"a.b"\<close>, since the white space before the period is removed after the periods have
  been looked at, and then \<open>"a. b"\<close>; \<open>"A.  B."\<close> becomes \<open>"A. B."\<close>, since the blanks are
  collapsed after the initials have been looked at, and then \<open>"A.B."\<close>.
\<close>

theorem normalize_not_idempotent:
  "normalizeOutputText (normalizeOutputText (js ''a.b.c'')) \<noteq> normalizeOutputText (js ''a.b.c'') \<and>
   normalizeOutputText (js ''a .b'') = js ''a.b'' \<and>
   normalizeOutputText (js ''a.b'') = js ''a. b'' \<and>
   normalizeOutputText (js ''A.  B.'') = js ''A. B.'' \<and>
   normalizeOutputText (js ''A. B.'') = js ''A.B.''"
  by (simp add: normalizeOutputText_def js_def eg_abbrev_def ie_abbrev_def tighten_initials_def
      char_classes)

text \<open>
  C4, amended: a second application of \<open>normalizeOutputText\<close> does to the result of the
  first what the period replacements alone do to it (the space after a period between an
  alphanumeric character and a letter, \<open>e.g.\<close>, \<open>i.e.\<close> and the initials); the other five
  replacements find nothing more. So \<open>normalizeOutputText\<close> is idempotent on \<open>s\<close> exactly
  when the period replacements leave \<open>normalizeOutputText s\<close> as it is, and in particular
  on every \<open>s\<close> without a period.
\<close>

theorem normalizeOutputText_second_application:
  "normalizeOutputText (normalizeOutputText s) = period_rules (normalizeOutputText s) \<and>
   (normalizeOutputText (normalizeOutputText s) = normalizeOutputText s \<longleftrightarrow>
      period_rules (normalizeOutputText s) = normalizeOutputText s) \<and>
   (46 \<notin> set s \<longrightarrow> normalizeOutputText (normalizeOutputText s) = normalizeOutputText s)"
  using settled_second_pass [OF normalize_settled, of s] normalize_idem_no_dot [of s] by simp

lemmas normalize_eval = normalizeOutputText_def period_rules_def js_def eg_abbrev_def ie_abbrev_def
  tighten_initials_def char_classes

theorem normalizeOutputText_second_application_witness:
  "normalizeOutputText (js ''end.Next ,(see  e. g. U. S. policy)'') =
     js ''end. Next, (see e.g. U.S. policy)'' \<and>
   period_rules (js ''end. Next, (see e.g. U.S. policy)'') = js ''end. Next, (see e.g. U.S. policy)'' \<and>
   normalizeOutputText (normalizeOutputText (js ''end.Next ,(see  e. g. U. S. policy)'')) =
     normalizeOutputText (js ''end.Next ,(see  e. g. U. S. policy)'') \<and>
   46 \<notin> set (js ''a ,b  c'') \<and>
   normalizeOutputText (normalizeOutputText (js ''a ,b  c'')) = normalizeOutputText (js ''a ,b  c'')"
proof -
  let ?s = "js ''end.Next ,(see  e. g. U. S. policy)''"
  have e: "normalizeOutputText ?s = js ''end. Next, (see e.g. U.S. policy)''"
    by (simp add: normalize_eval)
  have p: "period_rules (js ''end. Next, (see e.g. U.S. policy)'') = js ''end. Next, (see e.g. U.S. policy)''"
    by (simp add: normalize_eval)
  from e p have h: "period_rules (normalizeOutputText ?s) = normalizeOutputText ?s" by simp
  from normalizeOutputText_second_application [of ?s, THEN conjunct2, THEN conjunct1] h
  have i: "normalizeOutputText (normalizeOutputText ?s) = normalizeOutputText ?s" by simp
  have n: "46 \<notin> set (js ''a ,b  c'')" by (simp add: js_def)
  from normalizeOutputText_second_application [of "js ''a ,b  c''", THEN conjunct2, THEN conjunct2] n
  have j: "normalizeOutputText (normalizeOutputText (js ''a ,b  c'')) = normalizeOutputText (js ''a ,b  c'')"
    by simp
  from e p i n j show ?thesis by simp
qed

section \<open>Properties of smartJoin\<close>






section \<open>Properties of extractResponseText\<close>

text \<open>The equations of \<open>visit\<close> by the kind of node.\<close>

lemma visit_nullish: "visit JNull r = Inr []" "visit JUndefined r = Inr []"
  by (simp_all add: visit.simps)

lemma visit_JStr: "visit (JStr s) r = Inr (if s \<noteq> [] then [s] else [])"
  by (simp add: visit.simps push_def)

lemma visit_JBool: "visit (JBool b) r = Inr []"
  by (simp add: visit.simps)

lemma visit_JNum: "visit (JNum x) r = Inr []"
  by (simp add: visit.simps)

lemma visit_JArr: "visit (JArr xs) r = seqE (map (\<lambda>n. visit n r) xs)"
  by (simp add: visit.simps)

lemma visit_JObj:
  "visit (JObj fs) r =
     (let own = (\<lambda>k. case map_of fs k of Some v \<Rightarrow> v | None \<Rightarrow> JUndefined);
          nextRole = (if typeof (own (js ''role'')) = TString then own (js ''role'') else r);
          ty = own (js ''type'')
      in seqE (map (\<lambda>k. Inr (if typeof (own k) = TString \<and> collectable nextRole k ty
                               then push (own k) else [])) candidate_keys
               @ [if truthy (own (js ''delta''))
                  then (if typeof (own (js ''delta'')) = TString then Inr (push (own (js ''delta'')))
                        else visit (own (js ''delta'')) nextRole)
                  else Inr []]
               @ map (\<lambda>k. if truthy (own k) then visit (own k) nextRole else Inr [])
                   container_keys))"
  by (subst visit.simps) (simp add: Let_def)

lemmas visit_eval = visit_nullish visit_JStr visit_JBool visit_JNum visit_JArr visit_JObj

lemma seqE_total: "(\<And>r. r \<in> set rs \<Longrightarrow> \<exists>xs. r = Inr xs) \<Longrightarrow> \<exists>ys. seqE rs = Inr ys"
proof (induction rs)
  case (Cons r rs)
  then obtain xs ys where "r = Inr xs" "seqE rs = Inr ys" by (metis list.set_intros)
  then show ?case by simp
qed simp

lemma visit_total: "\<exists>chunks. visit node r = Inr chunks"
proof (induction node arbitrary: r)
  case (JArr xs)
  then have "\<exists>ys. seqE (map (\<lambda>n. visit n r) xs) = Inr ys"
    by (intro seqE_total) auto
  then show ?case by (simp add: visit_JArr)
next
  case (JObj fs)
  define own where "own = (\<lambda>k. case map_of fs k of Some v \<Rightarrow> v | None \<Rightarrow> JUndefined)"
  have sub: "\<exists>chunks. visit (own k) r' = Inr chunks" for k r'
  proof (cases "map_of fs k")
    case None
    then show ?thesis by (simp add: own_def visit_nullish)
  next
    case (Some v)
    then have "(k, v) \<in> set fs" by (rule map_of_SomeD)
    then have "\<exists>chunks. visit v r' = Inr chunks"
      by (intro JObj.IH [of "(k, v)"]) auto
    with Some show ?thesis by (simp add: own_def)
  qed
  show ?case
    unfolding visit_JObj Let_def own_def [symmetric]
    by (rule seqE_total) (use sub in auto)
qed (simp_all add: visit_eval)


lemmas extractor_keys = candidate_keys_def container_keys_def collectable_def push_def

lemma opt_get_total: "\<exists>v. opt_get x k = Inr v"
  by (cases x) auto

lemma opt_get_not_Inl [simp]: "opt_get x k \<noteq> Inl e"
  by (cases x) auto

lemma getIncompleteReason_total: "\<exists>r. getIncompleteReason data = Inr r"
  by (cases data) (auto simp: getIncompleteReason_def split: sum.splits)

lemma extract_fails_only_in_join:
  "extractResponseText f data = Inl e \<Longrightarrow>
     (\<exists>xs. opt_get data (js ''output_text'') = Inr (JArr xs) \<and> xs \<noteq> [] \<and>
        array_join f [] xs = Inl e)"
proof -
  assume a: "extractResponseText f data = Inl e"
  obtain ot where ot: "opt_get data (js ''output_text'') = Inr ot"
    by (cases data) auto
  obtain chunks where v: "visit data JNull = Inr chunks" using visit_total by blast
  from a ot v show ?thesis
    by (cases ot) (auto simp: extractResponseText_def split: if_splits sum.splits)
qed

text \<open>
  C1 says that \<open>extractResponseText\<close> never raises, whatever the payload. It does on the
  payload \<open>{"output_text": [{"toString": null}]}\<close>: the fast path joins the array, the
  join converts the object to a string, and that conversion throws a TypeError. By
  \<open>extract_fails_only_in_join\<close> this join is the only place where it can raise, and by
  \<open>visit_total\<close> the traversal never does.
\<close>
theorem extractResponseText_raises:
  "extractResponseText f (JObj [(js ''output_text'', JArr [JObj [(js ''toString'', JNull)]])])
     = Inl TypeError"
  by (simp add: extractResponseText_def js_def)

text \<open>
  C2 says that the text of a user-role node is not collected. On a payload with an
  assistant node and a sibling user node three containers deep, both with their text in
  \<open>content\<close>, the candidate loop collects the assistant's text and skips the user's, and
  the container loop then visits \<open>content\<close> of both nodes, where a string is pushed
  whatever the role: the chunks are the assistant's text twice and the user's text.
\<close>
theorem extractResponseText_collects_user_content:
  "visit (JObj [(js ''output'', JObj [(js ''data'', JObj [(js ''items'',
       JArr [JObj [(js ''role'', JStr (js ''assistant'')), (js ''content'', JStr (js ''yes''))],
             JObj [(js ''role'', JStr (js ''user'')), (js ''content'', JStr (js ''no''))]])])])])
     JNull = Inr [js ''yes'', js ''yes'', js ''no''] \<and>
   extractResponseText f
     (JObj [(js ''output'', JObj [(js ''data'', JObj [(js ''items'',
       JArr [JObj [(js ''role'', JStr (js ''assistant'')), (js ''content'', JStr (js ''yes''))],
             JObj [(js ''role'', JStr (js ''user'')), (js ''content'', JStr (js ''no''))]])])])])
     = Inr (js ''yes yes no'')"
proof -
  have v: "visit (JObj [(js ''output'', JObj [(js ''data'', JObj [(js ''items'',
       JArr [JObj [(js ''role'', JStr (js ''assistant'')), (js ''content'', JStr (js ''yes''))],
             JObj [(js ''role'', JStr (js ''user'')), (js ''content'', JStr (js ''no''))]])])])])
     JNull = Inr [js ''yes'', js ''yes'', js ''no'']"
    by (simp add: visit_eval extractor_keys js_def)
  have j: "trim (normalizeOutputText (smartJoin [js ''yes'', js ''yes'', js ''no''])) = js ''yes yes no''"
    by (simp add: trim_def normalizeOutputText_def smartJoin_def needSpace_def js_def eg_abbrev_def
        ie_abbrev_def tighten_initials_def char_classes)
  show ?thesis
    by (simp add: v extractResponseText_def j)
qed


lemma array_join_strings:
  "\<forall>x\<in>set xs. typeof x = TString \<Longrightarrow> array_join f [] xs = Inr (concat (map str_of xs))"
proof (induction xs)
  case (Cons x xs)
  then obtain s where "x = JStr s" by (cases x) auto
  with Cons show ?case by (cases "xs = []") auto
qed simp

text \<open>
  C3: when the top-level \<open>output_text\<close> of the payload is a non-empty string, the result
  is \<open>normalizeOutputText\<close> of that string, and when it is a non-empty array of strings,
  the result is \<open>normalizeOutputText\<close> of their concatenation, whatever the other fields
  of the payload are.
\<close>
theorem extractResponseText_fast_path:
  "(map_of fs (js ''output_text'') = Some (JStr s) \<and> s \<noteq> [] \<longrightarrow>
      extractResponseText f (JObj fs) = Inr (normalizeOutputText s)) \<and>
   (map_of fs (js ''output_text'') = Some (JArr xs) \<and> xs \<noteq> [] \<and> (\<forall>x\<in>set xs. typeof x = TString) \<longrightarrow>
      extractResponseText f (JObj fs) = Inr (normalizeOutputText (concat (map str_of xs))))"
  by (simp add: extractResponseText_def array_join_strings)

theorem extractResponseText_fast_path_witness:
  "extractResponseText (\<lambda>_. [])
     (JObj [(js ''status'', JStr (js ''completed'')), (js ''output_text'', JStr (js ''Done.'')),
            (js ''output'', JArr [JStr (js ''ignored'')])]) = Inr (js ''Done.'') \<and>
   extractResponseText (\<lambda>_. [])
     (JObj [(js ''output_text'', JArr [JStr (js ''Do''), JStr (js ''ne.'')]),
            (js ''output'', JArr [JStr (js ''ignored'')])]) = Inr (js ''Done.'')"
proof -
  have n: "normalizeOutputText (js ''Done.'') = js ''Done.''"
    by (simp add: normalizeOutputText_def js_def eg_abbrev_def ie_abbrev_def tighten_initials_def
        char_classes)
  have 1: "map_of [(js ''status'', JStr (js ''completed'')), (js ''output_text'', JStr (js ''Done.'')),
            (js ''output'', JArr [JStr (js ''ignored'')])] (js ''output_text'') = Some (JStr (js ''Done.''))
          \<and> js ''Done.'' \<noteq> []"
    by (simp add: js_def)
  have 2: "map_of [(js ''output_text'', JArr [JStr (js ''Do''), JStr (js ''ne.'')]),
            (js ''output'', JArr [JStr (js ''ignored'')])] (js ''output_text'')
             = Some (JArr [JStr (js ''Do''), JStr (js ''ne.'')]) \<and>
           [JStr (js ''Do''), JStr (js ''ne.'')] \<noteq> [] \<and>
           (\<forall>x\<in>set [JStr (js ''Do''), JStr (js ''ne.'')]. typeof x = TString)"
    by simp
  have c: "concat (map str_of [JStr (js ''Do''), JStr (js ''ne.'')]) = js ''Done.''"
    by (simp add: js_def)
  from extractResponseText_fast_path [THEN conjunct1, rule_format, OF 1]
    extractResponseText_fast_path [THEN conjunct2, rule_format, OF 2]
  show ?thesis by (simp only: n c)
qed

section \<open>Properties of completeWithAutoContinue\<close>

lemma auto_round_eq:
  "auto_round E messages sent s =
     (sent @ [\<lparr>input = messagesToPlainString (baseMessages s),
               max_output_tokens = clampTokens (configured_cap E) (tokens s)\<rparr>],
      case outcome E (length sent) of Inl e \<Rightarrow> Inl e
      | Inr c \<Rightarrow>
          if incompleteReason c \<noteq> JStr (js ''max_output_tokens'')
          then Inr (True, s\<lparr>accu := append_text (accu s) (out_text c),
                             lastReason := incompleteReason c\<rparr>)
          else Inr (False, s\<lparr>accu := append_text (accu s) (out_text c),
                              lastReason := incompleteReason c,
                              baseMessages := messages @
                                [\<lparr>role = Assistant, content = out_text c\<rparr>,
                                 \<lparr>role = User, content = continue_prompt\<rparr>],
                              tokens := Fin (clampTokens (configured_cap E) (grow (tokens s)))\<rparr>))"
  by (auto simp: auto_round_def callOnce_def Let_def append_text_def split: sum.splits)

lemma intercalate_filter_step:
  "intercalate [10] (filter (\<lambda>t. t \<noteq> []) (append_text a t # ts)) =
   intercalate [10] (filter (\<lambda>t. t \<noteq> []) (a # t # ts))"
  by (cases "filter (\<lambda>t. t \<noteq> []) ts") (auto simp: append_text_def)

lemma foldl_append_text:
  "foldl append_text a ts = intercalate [10] (filter (\<lambda>t. t \<noteq> []) (a # ts))"
proof (induction ts arbitrary: a)
  case Nil
  show ?case by simp
next
  case (Cons t ts)
  have "foldl append_text a (t # ts) = foldl append_text (append_text a t) ts" by simp
  also have "\<dots> = intercalate [10] (filter (\<lambda>t. t \<noteq> []) (append_text a t # ts))"
    by (rule Cons.IH)
  also have "\<dots> = intercalate [10] (filter (\<lambda>t. t \<noteq> []) (a # t # ts))"
    by (rule intercalate_filter_step)
  finally show ?case .
qed

lemma clampTokens_le_cap: "clampTokens cfg n \<le> MAX_TOKEN_CAP cfg"
  by (simp add: clampTokens_def MAX_TOKEN_CAP_def)

lemma clampTokens_ge_64: "64 \<le> clampTokens cfg n"
  by (simp add: clampTokens_def)

lemma clampTokens_grow_mono: "clampTokens cfg n \<le> clampTokens cfg (Fin (clampTokens cfg (grow n)))"
  by (cases n) (auto simp: clampTokens_def MAX_TOKEN_CAP_def)

lemma grow_in_range:
  "64 \<le> t \<Longrightarrow> t \<le> MAX_TOKEN_CAP cfg \<Longrightarrow>
     t \<le> clampTokens cfg (grow (Fin t)) \<and> clampTokens cfg (grow (Fin t)) \<le> MAX_TOKEN_CAP cfg"
  by (auto simp: clampTokens_def MAX_TOKEN_CAP_def)


lemma auto_loop_unfold:
  "auto_loop E messages m i sent s =
     (if i < m then
        (case outcome E (length sent) of
           Inl e \<Rightarrow> (sent @ [body_of E s], Inl e)
         | Inr c \<Rightarrow>
             if incompleteReason c \<noteq> JStr (js ''max_output_tokens'')
             then (sent @ [body_of E s],
                   Inr (s\<lparr>accu := append_text (accu s) (out_text c),
                           lastReason := incompleteReason c\<rparr>))
             else auto_loop E messages m (i + 1) (sent @ [body_of E s]) (continued E messages s c))
      else (sent, Inr s))"
  by (subst auto_loop.simps)
     (auto simp: auto_round_eq body_of_def continued_def split: sum.splits)

lemma auto_loop_length:
  "length (fst (auto_loop E messages m i sent s)) \<le> length sent + nat (m - i)"
proof (induction "nat (m - i)" arbitrary: i sent s)
  case 0
  then show ?case by (subst auto_loop_unfold) simp
next
  case (Suc d)
  then have lt: "i < m" and d: "d = nat (m - (i + 1))" by auto
  have "length (fst (auto_loop E messages m (i + 1) (sent @ [body_of E s]) s')) \<le> length sent + nat (m - i)"
    for s'
    using Suc.hyps(1) [OF d, of "sent @ [body_of E s]" s'] lt by simp
  with lt show ?case
    by (subst auto_loop_unfold) (auto split: sum.splits)
qed

lemma auto_loop_budgets:
  "\<forall>b\<in>set sent. max_output_tokens b \<le> MAX_TOKEN_CAP (configured_cap E) \<Longrightarrow>
   \<forall>b\<in>set (fst (auto_loop E messages m i sent s)). max_output_tokens b \<le> MAX_TOKEN_CAP (configured_cap E)"
proof (induction "nat (m - i)" arbitrary: i sent s)
  case 0
  then show ?case by (subst auto_loop_unfold) simp
next
  case (Suc d)
  then have lt: "i < m" and d: "d = nat (m - (i + 1))" by auto
  have b: "\<forall>b\<in>set (sent @ [body_of E s]). max_output_tokens b \<le> MAX_TOKEN_CAP (configured_cap E)"
    using Suc.prems by (simp add: body_of_def clampTokens_le_cap)
  from Suc.hyps(1) [OF d b] b lt show ?case
    by (subst auto_loop_unfold) (auto split: sum.splits)
qed

lemma auto_loop_sorted:
  "sorted (map max_output_tokens sent) \<Longrightarrow>
   \<forall>b\<in>set sent. max_output_tokens b \<le> clampTokens (configured_cap E) (tokens s) \<Longrightarrow>
   sorted (map max_output_tokens (fst (auto_loop E messages m i sent s)))"
proof (induction "nat (m - i)" arbitrary: i sent s)
  case 0
  then show ?case by (subst auto_loop_unfold) simp
next
  case (Suc d)
  then have lt: "i < m" and d: "d = nat (m - (i + 1))" by auto
  let ?sent = "sent @ [body_of E s]"
  have so: "sorted (map max_output_tokens ?sent)"
    using Suc.prems by (auto simp: sorted_append body_of_def)
  have "\<forall>b\<in>set ?sent. max_output_tokens b \<le> clampTokens (configured_cap E) (tokens (continued E messages s c))"
    for c :: completion
    using Suc.prems(2) clampTokens_grow_mono [of "configured_cap E" "tokens s"]
    by (auto simp: continued_def body_of_def intro: order_trans)
  from Suc.hyps(1) [OF d so this] so lt show ?case
    by (subst auto_loop_unfold) (auto split: sum.splits)
qed

lemma append_text_extends: "\<exists>ext. append_text a t = a @ ext"
  by (simp add: append_text_def)

lemma auto_loop_extends:
  "auto_loop E messages m i sent s = (sent', Inr s') \<Longrightarrow> \<exists>ext. accu s' = accu s @ ext"
proof (induction "nat (m - i)" arbitrary: i sent s)
  case 0
  then show ?case by (subst (asm) auto_loop_unfold) simp
next
  case (Suc d)
  then have lt: "i < m" and d: "d = nat (m - (i + 1))" by auto
  show ?case
  proof (cases "outcome E (length sent)")
    case (Inl e)
    with Suc.prems lt show ?thesis by (subst (asm) auto_loop_unfold) simp
  next
    case (Inr c)
    obtain e2 where e2: "append_text (accu s) (out_text c) = accu s @ e2"
      using append_text_extends by blast
    show ?thesis
    proof (cases "incompleteReason c \<noteq> JStr (js ''max_output_tokens'')")
      case True
      with Suc.prems lt Inr have "s' = s\<lparr>accu := append_text (accu s) (out_text c),
          lastReason := incompleteReason c\<rparr>"
        by (subst (asm) auto_loop_unfold) simp
      with e2 show ?thesis by simp
    next
      case False
      with Suc.prems lt Inr
      have "auto_loop E messages m (i + 1) (sent @ [body_of E s]) (continued E messages s c) = (sent', Inr s')"
        by (subst (asm) auto_loop_unfold) simp
      from Suc.hyps(1) [OF d this] obtain ext where "accu s' = accu (continued E messages s c) @ ext"
        by blast
      with e2 show ?thesis by (simp add: continued_def)
    qed
  qed
qed


lemma auto_loop_stops:
  assumes "i = int (length sent)" "length sent \<le> k" "int k < m"
    "\<forall>j. length sent \<le> j \<and> j < k \<longrightarrow> truncated E j"
    "outcome E k = Inr c" "incompleteReason c \<noteq> JStr (js ''max_output_tokens'')"
  shows "\<exists>sent' s'. auto_loop E messages m i sent s = (sent', Inr s') \<and> length sent' = k + 1 \<and>
    accu s' = foldl append_text (accu s) (map (round_text E) [length sent..<k + 1]) \<and>
    lastReason s' = incompleteReason c"
  using assms(1,2,4)
proof (induction "k - length sent" arbitrary: i sent s)
  case 0
  then have k: "length sent = k" by simp
  with 0 assms(3) have lt: "i < m" by simp
  have "[length sent..<k + 1] = [k]" using k by simp
  with lt assms(5,6) k show ?case
    by (subst auto_loop_unfold) (simp add: round_text_def)
next
  case (Suc d)
  then have n: "length sent < k" by simp
  with Suc.prems assms(3) have lt: "i < m" by simp
  from Suc.prems(3) n obtain c0 where c0: "outcome E (length sent) = Inr c0"
      "incompleteReason c0 = JStr (js ''max_output_tokens'')"
    by (auto simp: truncated_def)
  let ?sent = "sent @ [body_of E s]"
  let ?s = "continued E messages s c0"
  have d: "d = k - length ?sent" using Suc.hyps(2) by simp
  have 1: "i + 1 = int (length ?sent)" using Suc.prems(1) by simp
  have 2: "length ?sent \<le> k" using n by simp
  have 3: "\<forall>j. length ?sent \<le> j \<and> j < k \<longrightarrow> truncated E j" using Suc.prems(3) by simp
  from Suc.hyps(1) [OF d 1 2 3, of ?s]
  obtain sent' s' where r: "auto_loop E messages m (i + 1) ?sent ?s = (sent', Inr s')"
      "length sent' = k + 1"
      "accu s' = foldl append_text (accu ?s) (map (round_text E) [length ?sent..<k + 1])"
      "lastReason s' = incompleteReason c"
    by blast
  have u: "[length sent..<k + 1] = length sent # [length ?sent..<k + 1]"
    using n by (simp add: upt_conv_Cons)
  have a: "accu ?s = append_text (accu s) (round_text E (length sent))"
    by (simp add: continued_def round_text_def c0)
  have "auto_loop E messages m i sent s = auto_loop E messages m (i + 1) ?sent ?s"
    using lt c0 by (subst auto_loop_unfold) simp
  with r u a show ?case by simp
qed

lemma auto_loop_exhausts:
  assumes "i = int (length sent)" "length sent < nat m"
    "\<forall>j. length sent \<le> j \<and> j < nat m \<longrightarrow> truncated E j"
  shows "\<exists>sent' s'. auto_loop E messages m i sent s = (sent', Inr s') \<and> length sent' = nat m \<and>
    accu s' = foldl append_text (accu s) (map (round_text E) [length sent..<nat m]) \<and>
    lastReason s' = JStr (js ''max_output_tokens'')"
  using assms
proof (induction "nat m - Suc (length sent)" arbitrary: i sent s)
  case 0
  then have k: "Suc (length sent) = nat m" by simp
  with 0 have lt: "i < m" "\<not> i + 1 < m" by auto
  from 0 obtain c0 where c0: "outcome E (length sent) = Inr c0"
      "incompleteReason c0 = JStr (js ''max_output_tokens'')"
    by (auto simp: truncated_def)
  let ?sent = "sent @ [body_of E s]"
  let ?s = "continued E messages s c0"
  have "auto_loop E messages m i sent s = auto_loop E messages m (i + 1) ?sent ?s"
    using lt c0 by (subst auto_loop_unfold) simp
  also have "\<dots> = (?sent, Inr ?s)"
    using lt by (subst auto_loop_unfold) simp
  finally have e: "auto_loop E messages m i sent s = (?sent, Inr ?s)" .
  have "[length sent..<nat m] = [length sent]" using k by (simp add: upt_conv_Cons)
  with e k c0 show ?case by (simp add: continued_def round_text_def)
next
  case (Suc d)
  then have n: "Suc (length sent) < nat m" by simp
  with Suc.prems have lt: "i < m" by simp
  from Suc.prems obtain c0 where c0: "outcome E (length sent) = Inr c0"
      "incompleteReason c0 = JStr (js ''max_output_tokens'')"
    by (auto simp: truncated_def)
  let ?sent = "sent @ [body_of E s]"
  let ?s = "continued E messages s c0"
  have d: "d = nat m - Suc (length ?sent)" using Suc.hyps(2) by simp
  have 1: "i + 1 = int (length ?sent)" using Suc.prems(1) by simp
  have 2: "length ?sent < nat m" using n by simp
  have 3: "\<forall>j. length ?sent \<le> j \<and> j < nat m \<longrightarrow> truncated E j" using Suc.prems(3) by simp
  from Suc.hyps(1) [OF d 1 2 3, of ?s]
  obtain sent' s' where r: "auto_loop E messages m (i + 1) ?sent ?s = (sent', Inr s')"
      "length sent' = nat m"
      "accu s' = foldl append_text (accu ?s) (map (round_text E) [length ?sent..<nat m])"
      "lastReason s' = JStr (js ''max_output_tokens'')"
    by blast
  have u: "[length sent..<nat m] = length sent # [length ?sent..<nat m]"
    using n by (simp add: upt_conv_Cons)
  have a: "accu ?s = append_text (accu s) (round_text E (length sent))"
    by (simp add: continued_def round_text_def c0)
  have "auto_loop E messages m i sent s = auto_loop E messages m (i + 1) ?sent ?s"
    using lt c0 by (subst auto_loop_unfold) simp
  with r u a show ?case by simp
qed

lemma joined_texts_foldl: "joined_texts E n = foldl append_text [] (map (round_text E) [0..<n])"
  by (simp add: joined_texts_def foldl_append_text)


lemma demo_outcome_0:
  "outcome demo_env 0 =
     Inr \<lparr>out_text = js ''Part one.'', incompleteReason = JStr (js ''max_output_tokens'')\<rparr>"
  by (simp add: outcome_def demo_env_def extractResponseText_def getIncompleteReason_def
      normalizeOutputText_def js_def eg_abbrev_def ie_abbrev_def tighten_initials_def char_classes)

lemma demo_outcome_1:
  "outcome demo_env (Suc 0) = Inr \<lparr>out_text = js ''Part two.'', incompleteReason = JNull\<rparr>"
  by (simp add: outcome_def demo_env_def extractResponseText_def getIncompleteReason_def
      normalizeOutputText_def js_def eg_abbrev_def ie_abbrev_def tighten_initials_def char_classes)

lemma demo_cap: "configured_cap demo_env = 3500"
  by (simp add: demo_env_def)

text \<open>
  C5: for every starting budget and every \<open>rounds \<ge> 1\<close>, a run makes at most \<open>rounds\<close>
  calls, each with a token budget of at most the cap; it stops with the first round
  whose reason is not \<open>max_output_tokens\<close> (\<open>null\<close> and other reasons alike), after
  exactly that many calls; if every round reports \<open>max_output_tokens\<close> it makes exactly
  \<open>rounds\<close> calls; and the returned text is the non-empty texts of the rounds made,
  joined by single newlines.
\<close>
theorem completeWithAutoContinue_rounds:
  "1 \<le> rounds \<Longrightarrow>
   (case completeWithAutoContinue E messages tokens0 rounds of (sent, res) \<Rightarrow>
      length sent \<le> nat rounds \<and>
      (\<forall>b\<in>set sent. max_output_tokens b \<le> MAX_TOKEN_CAP (configured_cap E)) \<and>
      (\<forall>k c. k < nat rounds \<and> (\<forall>j<k. truncated E j) \<and> outcome E k = Inr c \<and>
             incompleteReason c \<noteq> JStr (js ''max_output_tokens'') \<longrightarrow>
         length sent = k + 1 \<and>
         res = Inr \<lparr>out_text = joined_texts E (k + 1), incompleteReason = incompleteReason c\<rparr>) \<and>
      ((\<forall>j<nat rounds. truncated E j) \<longrightarrow>
         length sent = nat rounds \<and>
         res = Inr \<lparr>out_text = joined_texts E (nat rounds),
                    incompleteReason = JStr (js ''max_output_tokens'')\<rparr>))"
proof -
  assume r: "1 \<le> rounds"
  let ?s0 = "\<lparr>accu = [], baseMessages = messages, lastReason = JNull, tokens = tokens0\<rparr>"
  let ?run = "auto_loop E messages rounds 0 [] ?s0"
  obtain sent res where run: "completeWithAutoContinue E messages tokens0 rounds = (sent, res)"
    by (cases "completeWithAutoContinue E messages tokens0 rounds")
  have m: "max 1 rounds = rounds" using r by simp
  have fst: "sent = fst ?run"
    using run by (auto simp: completeWithAutoContinue_def m split: prod.splits sum.splits)
  have res: "res = Inr \<lparr>out_text = accu s', incompleteReason = lastReason s'\<rparr>"
    if "?run = (sent', Inr s')" for sent' s'
    using run that by (simp add: completeWithAutoContinue_def m)
  have 1: "length sent \<le> nat rounds"
    using auto_loop_length [of E messages rounds 0 "[]" ?s0] by (simp add: fst)
  have 2: "\<forall>b\<in>set sent. max_output_tokens b \<le> MAX_TOKEN_CAP (configured_cap E)"
    unfolding fst by (rule auto_loop_budgets) simp
  have 3: "length sent = k + 1 \<and>
         res = Inr \<lparr>out_text = joined_texts E (k + 1), incompleteReason = incompleteReason c\<rparr>"
    if "k < nat rounds" "\<forall>j<k. truncated E j" "outcome E k = Inr c"
       "incompleteReason c \<noteq> JStr (js ''max_output_tokens'')" for k c
  proof -
    from that(1) have km: "int k < rounds" by simp
    from auto_loop_stops [of 0 "[]" k rounds E c messages ?s0] km that(2,3,4)
    obtain sent' s' where l: "?run = (sent', Inr s')" "length sent' = k + 1"
        "accu s' = foldl append_text [] (map (round_text E) [0..<k + 1])"
        "lastReason s' = incompleteReason c"
      by auto
    from l(1) have "sent = sent'" by (simp add: fst)
    with l res [OF l(1)] show ?thesis by (simp add: joined_texts_foldl)
  qed
  have 4: "length sent = nat rounds \<and>
         res = Inr \<lparr>out_text = joined_texts E (nat rounds),
                    incompleteReason = JStr (js ''max_output_tokens'')\<rparr>"
    if "\<forall>j<nat rounds. truncated E j"
  proof -
    from auto_loop_exhausts [of 0 "[]" rounds E messages ?s0] r that
    obtain sent' s' where l: "?run = (sent', Inr s')" "length sent' = nat rounds"
        "accu s' = foldl append_text [] (map (round_text E) [0..<nat rounds])"
        "lastReason s' = JStr (js ''max_output_tokens'')"
      by auto
    from l(1) have "sent = sent'" by (simp add: fst)
    with l res [OF l(1)] show ?thesis by (simp add: joined_texts_foldl)
  qed
  from 1 2 3 4 show ?thesis unfolding run by simp
qed

theorem completeWithAutoContinue_rounds_witness:
  "(1::int) \<le> 6 \<and>
   length (fst (completeWithAutoContinue demo_env [] (Fin 1300) 6)) = 2 \<and>
   snd (completeWithAutoContinue demo_env [] (Fin 1300) 6) =
     Inr \<lparr>out_text = js ''Part one.'' @ [10] @ js ''Part two.'', incompleteReason = JNull\<rparr>"
proof -
  have t: "\<forall>j<1. truncated demo_env j"
    by (simp add: truncated_def demo_outcome_0)
  have j: "joined_texts demo_env (1 + 1) = js ''Part one.'' @ [10] @ js ''Part two.''"
    by (simp add: joined_texts_def round_text_def demo_outcome_0 demo_outcome_1 upt_rec js_def)
  have o: "outcome demo_env 1 = Inr \<lparr>out_text = js ''Part two.'', incompleteReason = JNull\<rparr>"
    using demo_outcome_1 by simp
  obtain sent res where run: "completeWithAutoContinue demo_env [] (Fin 1300) 6 = (sent, res)"
    by (cases "completeWithAutoContinue demo_env [] (Fin 1300) 6")
  from completeWithAutoContinue_rounds [of 6 demo_env "[]" "Fin 1300"]
  have "\<forall>k c. k < nat 6 \<and> (\<forall>j<k. truncated demo_env j) \<and> outcome demo_env k = Inr c \<and>
             incompleteReason c \<noteq> JStr (js ''max_output_tokens'') \<longrightarrow>
         length sent = k + 1 \<and>
         res = Inr \<lparr>out_text = joined_texts demo_env (k + 1), incompleteReason = incompleteReason c\<rparr>"
    unfolding run by simp
  from this [rule_format, of 1 "\<lparr>out_text = js ''Part two.'', incompleteReason = JNull\<rparr>"] t o
  have "length sent = 2 \<and> res = Inr \<lparr>out_text = joined_texts demo_env (1 + 1), incompleteReason = JNull\<rparr>"
    by simp
  with j run show ?thesis by simp
qed


text \<open>
  C6: a round only appends to the accumulated text, so the accumulated text at the end
  of a run extends the text of every earlier round; a budget \<open>t\<close> between 64 and the cap
  grows to \<open>clampTokens(round(t * 1.25)) \<ge> t\<close>, again at most the cap; and the budgets of
  the calls of one run never decrease.
\<close>
theorem continuation_monotone:
  "(auto_round E messages sent s = (sent', Inr (stop, s')) \<longrightarrow> (\<exists>ext. accu s' = accu s @ ext)) \<and>
   (auto_loop E messages m i sent s = (sent'', Inr s'') \<longrightarrow> (\<exists>ext. accu s'' = accu s @ ext)) \<and>
   (64 \<le> t \<and> t \<le> MAX_TOKEN_CAP cfg \<longrightarrow>
      t \<le> clampTokens cfg (grow (Fin t)) \<and> clampTokens cfg (grow (Fin t)) \<le> MAX_TOKEN_CAP cfg) \<and>
   sorted (map max_output_tokens (fst (completeWithAutoContinue E messages tokens0 rounds)))"
proof (intro conjI impI)
  assume "auto_round E messages sent s = (sent', Inr (stop, s'))"
  then have "accu s' = append_text (accu s) (out_text c)" if "outcome E (length sent) = Inr c" for c
    using that by (auto simp: auto_round_eq split: if_splits)
  moreover have "\<exists>c. outcome E (length sent) = Inr c"
    using \<open>auto_round E messages sent s = (sent', Inr (stop, s'))\<close>
    by (cases "outcome E (length sent)") (auto simp: auto_round_eq)
  ultimately show "\<exists>ext. accu s' = accu s @ ext"
    using append_text_extends by metis
next
  assume "auto_loop E messages m i sent s = (sent'', Inr s'')"
  then show "\<exists>ext. accu s'' = accu s @ ext" by (rule auto_loop_extends)
next
  assume "64 \<le> t \<and> t \<le> MAX_TOKEN_CAP cfg"
  then show "t \<le> clampTokens cfg (grow (Fin t))" "clampTokens cfg (grow (Fin t)) \<le> MAX_TOKEN_CAP cfg"
    using grow_in_range [of t cfg] by simp_all
next
  have "sorted (map max_output_tokens (fst (auto_loop E messages (max 1 rounds) 0 []
      \<lparr>accu = [], baseMessages = messages, lastReason = JNull, tokens = tokens0\<rparr>)))"
    by (rule auto_loop_sorted) simp_all
  then show "sorted (map max_output_tokens (fst (completeWithAutoContinue E messages tokens0 rounds)))"
    by (auto simp: completeWithAutoContinue_def split: prod.splits sum.splits)
qed

theorem continuation_monotone_witness:
  "auto_round demo_env [] [] \<lparr>accu = js ''Intro'', baseMessages = [], lastReason = JNull, tokens = Fin 1300\<rparr> =
     ([\<lparr>input = [], max_output_tokens = 1300\<rparr>],
      Inr (False, \<lparr>accu = js ''Intro'' @ [10] @ js ''Part one.'',
                   baseMessages = [\<lparr>role = Assistant, content = js ''Part one.''\<rparr>,
                                   \<lparr>role = User, content = continue_prompt\<rparr>],
                   lastReason = JStr (js ''max_output_tokens''), tokens = Fin 1625\<rparr>)) \<and>
   (\<exists>ext. js ''Intro'' @ [10] @ js ''Part one.'' = js ''Intro'' @ ext) \<and>
   (\<exists>sent' s'. auto_loop demo_env [] 6 0 []
        \<lparr>accu = js ''Intro'', baseMessages = [], lastReason = JNull, tokens = Fin 1300\<rparr> = (sent', Inr s') \<and>
      accu s' = js ''Intro'' @ [10] @ js ''Part one.'' @ [10] @ js ''Part two.'' \<and>
      (\<exists>ext. accu s' = js ''Intro'' @ ext)) \<and>
   (64::int) \<le> 1300 \<and> 1300 \<le> MAX_TOKEN_CAP 3500 \<and>
   1300 \<le> clampTokens 3500 (grow (Fin 1300)) \<and> clampTokens 3500 (grow (Fin 1300)) \<le> MAX_TOKEN_CAP 3500"
proof -
  let ?s = "\<lparr>accu = js ''Intro'', baseMessages = [], lastReason = JNull, tokens = Fin 1300\<rparr>"
  let ?s' = "\<lparr>accu = js ''Intro'' @ [10] @ js ''Part one.'',
                   baseMessages = [\<lparr>role = Assistant, content = js ''Part one.''\<rparr>,
                                   \<lparr>role = User, content = continue_prompt\<rparr>],
                   lastReason = JStr (js ''max_output_tokens''), tokens = Fin 1625\<rparr>"
  have a: "auto_round demo_env [] [] ?s = ([\<lparr>input = [], max_output_tokens = 1300\<rparr>], Inr (False, ?s'))"
    by (simp add: auto_round_eq demo_outcome_0 messagesToPlainString_def clampTokens_def
        MAX_TOKEN_CAP_def demo_cap append_text_def js_def)
  have "\<forall>j. length ([] :: request list) \<le> j \<and> j < 1 \<longrightarrow> truncated demo_env j"
    by (simp add: truncated_def demo_outcome_0)
  from auto_loop_stops [of 0 "[]" 1 6 demo_env
      "\<lparr>out_text = js ''Part two.'', incompleteReason = JNull\<rparr>" "[]" ?s, OF _ _ _ this]
    demo_outcome_1
  obtain sent1 s1 where l: "auto_loop demo_env [] 6 0 [] ?s = (sent1, Inr s1)"
      "accu s1 = foldl append_text (js ''Intro'') (map (round_text demo_env) [0..<1 + 1])"
    by auto
  have f: "foldl append_text (js ''Intro'') (map (round_text demo_env) [0..<1 + 1]) =
      js ''Intro'' @ [10] @ js ''Part one.'' @ [10] @ js ''Part two.''"
    by (simp add: round_text_def demo_outcome_0 demo_outcome_1 upt_rec append_text_def js_def)
  have r: "(64::int) \<le> 1300 \<and> 1300 \<le> MAX_TOKEN_CAP 3500" by (simp add: MAX_TOKEN_CAP_def)
  note w = continuation_monotone [of demo_env "[]" "[]" ?s "[\<lparr>input = [], max_output_tokens = 1300\<rparr>]"
      False ?s' 6 0 sent1 s1 1300 3500]
  from w [THEN conjunct1, rule_format, OF a]
  have e: "\<exists>ext. js ''Intro'' @ [10] @ js ''Part one.'' = js ''Intro'' @ ext" by simp
  from w [THEN conjunct2, THEN conjunct1, rule_format, OF l(1)]
  have x: "\<exists>ext. accu s1 = js ''Intro'' @ ext" by simp
  from w [THEN conjunct2, THEN conjunct2, THEN conjunct1, rule_format, OF r]
  have g: "1300 \<le> clampTokens 3500 (grow (Fin 1300)) \<and>
      clampTokens 3500 (grow (Fin 1300)) \<le> MAX_TOKEN_CAP 3500" .
  from l f x have "\<exists>sent' s'. auto_loop demo_env [] 6 0 [] ?s = (sent', Inr s') \<and>
      accu s' = js ''Intro'' @ [10] @ js ''Part one.'' @ [10] @ js ''Part two.'' \<and>
      (\<exists>ext. accu s' = js ''Intro'' @ ext)"
    by auto
  with a e r g show ?thesis by simp
qed

section \<open>Properties of retrieveSimilar\<close>

lemma select_loop_eq:
  "select_loop topK maxc results used scored =
     results @ select_from topK maxc (length results) used scored"
proof (induction scored arbitrary: results used)
  case (Cons a scored)
  obtain r sc where a: "a = (r, sc)" by (cases a)
  have "max 0 (maxc - used) = maxc - used" if "\<not> max 0 (maxc - used) < 200"
    using that by simp
  then show ?case unfolding a by (simp add: Cons.IH Let_def)
qed simp

lemma select_from_length: "int (length (select_from topK maxc n used scored)) \<le> max 0 (topK - int n)"
proof (induction scored arbitrary: n used)
  case (Cons a scored)
  obtain r sc where a: "a = (r, sc)" by (cases a)
  let ?snip = "take (nat (maxc - used)) (doc.content r)"
  show ?case unfolding a
    using Cons.IH [of "Suc n" "used + int (length ?snip)"]
    by (simp del: length_take add: max_def split: if_splits)
qed simp

lemma select_from_total:
  "total_chars (select_from topK maxc n used scored) + used \<le> max used maxc"
proof (induction scored arbitrary: n used)
  case (Cons a scored)
  obtain r sc where a: "a = (r, sc)" by (cases a)
  let ?snip = "take (nat (maxc - used)) (doc.content r)"
  show ?case
  proof (cases "int n \<ge> topK \<or> max 0 (maxc - used) < 200")
    case True
    then show ?thesis unfolding a by (simp add: total_chars_def)
  next
    case False
    have "length ?snip \<le> nat (maxc - used)" by simp
    with False have "int (length ?snip) \<le> maxc - used" by linarith
    with Cons.IH [of "Suc n" "used + int (length ?snip)"] False
    show ?thesis unfolding a
      by (simp del: length_take add: total_chars_def max_def split: if_splits)
  qed
qed (simp add: total_chars_def)

lemma select_from_scores:
  "map score (select_from topK maxc n used scored) =
     map snd (take (length (select_from topK maxc n used scored)) scored)"
proof (induction scored arbitrary: n used)
  case (Cons a scored)
  obtain r sc where a: "a = (r, sc)" by (cases a)
  show ?case unfolding a using Cons.IH by simp
qed simp

lemma select_from_le: "length (select_from topK maxc n used scored) \<le> length scored"
proof (induction scored arbitrary: n used)
  case (Cons a scored)
  obtain r sc where a: "a = (r, sc)" by (cases a)
  show ?case unfolding a using Cons.IH by simp
qed simp

lemma select_from_nth:
  "i < length (select_from topK maxc n used scored) \<Longrightarrow>
     200 \<le> maxc - (used + total_chars (take i (select_from topK maxc n used scored))) \<and>
     select_from topK maxc n used scored ! i =
       \<lparr>title = doc.title (fst (scored ! i)), fileName = doc.fileName (fst (scored ! i)),
        content = take (nat (maxc - (used + total_chars (take i (select_from topK maxc n used scored)))))
                    (doc.content (fst (scored ! i))),
        score = snd (scored ! i)\<rparr>"
proof (induction scored arbitrary: n used i)
  case (Cons a scored)
  obtain r sc where a: "a = (r, sc)" by (cases a)
  let ?snip = "take (nat (maxc - used)) (doc.content r)"
  from Cons.prems have go: "\<not> (int n \<ge> topK \<or> max 0 (maxc - used) < 200)"
    unfolding a by (auto split: if_splits)
  show ?case
  proof (cases i)
    case 0
    with go show ?thesis unfolding a by (simp add: total_chars_def)
  next
    case (Suc j)
    with Cons.prems go
    have j: "j < length (select_from topK maxc (Suc n) (used + int (length ?snip)) scored)"
      unfolding a by (simp del: length_take)
    from Cons.IH [OF j] go Suc show ?thesis
      unfolding a by (simp del: length_take add: total_chars_def add.assoc)
  qed
qed simp

lemma select_from_stop:
  "length (select_from topK maxc n used scored) < length scored \<Longrightarrow>
     topK \<le> int n + int (length (select_from topK maxc n used scored)) \<or>
     maxc - (used + total_chars (select_from topK maxc n used scored)) < 200"
proof (induction scored arbitrary: n used)
  case (Cons a scored)
  obtain r sc where a: "a = (r, sc)" by (cases a)
  let ?snip = "take (nat (maxc - used)) (doc.content r)"
  show ?case
  proof (cases "int n \<ge> topK \<or> max 0 (maxc - used) < 200")
    case True
    then show ?thesis unfolding a by (auto simp: total_chars_def)
  next
    case False
    with Cons.prems
    have "length (select_from topK maxc (Suc n) (used + int (length ?snip)) scored) < length scored"
      unfolding a by (simp del: length_take)
    from Cons.IH [OF this] False show ?thesis
      unfolding a by (simp del: length_take add: total_chars_def algebra_simps)
  qed
qed simp

lemma cosine_sums_Some: "length a \<le> length b \<Longrightarrow> \<exists>t. cosine_sums a b s = Some t"
  by (induction a b s rule: cosine_sums.induct) auto

lemma cosine_sums_None: "length b < length a \<Longrightarrow> cosine_sums a b s = None"
  by (induction a b s rule: cosine_sums.induct) auto

lemma cosineSim_NaN: "cosineSim a b = NaN \<longleftrightarrow> length b < length a"
proof (cases "length b < length a")
  case True
  then show ?thesis by (simp add: cosineSim_def cosine_sums_None)
next
  case False
  then obtain t where "cosine_sums a b (0, 0, 0) = Some t"
    using cosine_sums_Some [of a b "(0, 0, 0)"] by auto
  with False show ?thesis by (simp add: cosineSim_def split: prod.splits)
qed

lemma with_scores_numbers:
  "list_all (\<lambda>(r, sc). sc \<noteq> NaN) (with_scores qVec recs) \<longleftrightarrow>
     (\<forall>r\<in>set recs. length qVec \<le> length (embedding r))"
  by (auto simp: with_scores_def list_all_iff cosineSim_NaN not_less)

lemma num_ge_the_num: "a \<noteq> NaN \<Longrightarrow> b \<noteq> NaN \<Longrightarrow> num_ge a b \<longleftrightarrow> the_num b \<le> the_num a"
  by (cases a; cases b) auto

lemma sort_by_score_descending:
  assumes "list_all (\<lambda>(r, sc). sc \<noteq> NaN) scored"
  shows "sorted_wrt (\<lambda>a b. num_ge (snd a) (snd b)) (sort_by_score engine_order scored)"
proof -
  let ?s = "sort_key (\<lambda>(r, sc). - the_num sc) scored"
  have "sorted (map (\<lambda>(r, sc). - the_num sc) ?s)" by (rule sorted_sort_key)
  then have s: "sorted_wrt (\<lambda>a b. the_num (snd b) \<le> the_num (snd a)) ?s"
    by (simp add: sorted_map case_prod_unfold)
  from assms have n: "snd p \<noteq> NaN" if "p \<in> set ?s" for p
    using that by (auto simp: list_all_iff)
  have "sorted_wrt (\<lambda>a b. num_ge (snd a) (snd b)) ?s"
    by (rule sorted_wrt_mono_rel [OF _ s]) (simp add: num_ge_the_num n)
  with assms show ?thesis by (simp add: sort_by_score_def)
qed

lemma sort_by_score_stable:
  assumes "list_all (\<lambda>(r, sc). sc \<noteq> NaN) scored"
  shows "filter (\<lambda>p. snd p = k) (sort_by_score engine_order scored) = filter (\<lambda>p. snd p = k) scored"
proof -
  let ?f = "\<lambda>(r :: rag_record, sc). - the_num sc"
  let ?s = "sort_key ?f scored"
  from assms have n: "\<forall>p\<in>set scored. snd p \<noteq> NaN" "\<forall>p\<in>set ?s. snd p \<noteq> NaN"
    by (auto simp: list_all_iff)
  have e: "(snd p = k) = (k \<noteq> NaN \<and> ?f p = - the_num k)" if "snd p \<noteq> NaN" for p
    using that by (cases p; cases k; cases "snd p") auto
  have "filter (\<lambda>p. snd p = k) ?s = filter (\<lambda>p. k \<noteq> NaN \<and> ?f p = - the_num k) ?s"
    using n(2) by (intro filter_cong refl e) auto
  also have "\<dots> = filter (\<lambda>p. k \<noteq> NaN \<and> ?f p = - the_num k) scored"
    by (cases "k = NaN") (simp_all add: sort_key_stable)
  also have "\<dots> = filter (\<lambda>p. snd p = k) scored"
    using n(1) by (intro filter_cong refl e [symmetric]) auto
  finally show ?thesis using assms by (simp add: sort_by_score_def)
qed

lemma select_from_descending:
  assumes "sorted_wrt (\<lambda>a b. num_ge (snd a) (snd b)) scored"
  shows "sorted_wrt num_ge (map score (select_from topK maxc n used scored))"
proof -
  let ?k = "length (select_from topK maxc n used scored)"
  from assms have "sorted_wrt (\<lambda>a b. num_ge (snd a) (snd b)) (take ?k scored)"
    by (rule sorted_wrt_take)
  then show ?thesis
    by (simp add: select_from_scores sorted_wrt_map)
qed

lemma length_sort_by_score:
  "list_all (\<lambda>(r, sc). sc \<noteq> NaN) scored \<Longrightarrow> length (sort_by_score engine_order scored) = length scored"
  by (simp add: sort_by_score_def)




text \<open>
  C7, as stated, fails. Two records with the same embedding get the same score and are
  both returned, so the scores of the result are not strictly descending. And a record
  whose embedding is shorter than that of the query gets the score \<open>NaN\<close>, on which the
  comparator of the sort returns \<open>NaN\<close>; an engine that leaves the two records in their
  order then returns the \<open>NaN\<close> score before a number.
\<close>
theorem retrieveSimilar_ties:
  "retrieveSimilar (\<lambda>_. Inr [1]) (\<lambda>scored. scored)
     (Some \<lparr>records = Some
        [\<lparr>title = js ''A'', fileName = js ''a.md'', content = js ''alpha'', embedding = [1]\<rparr>,
         \<lparr>title = js ''B'', fileName = js ''b.md'', content = js ''beta'', embedding = [1]\<rparr>]\<rparr>)
     (js ''q'') 4 3000 =
     ([js ''q''],
      Inr [\<lparr>title = js ''A'', fileName = js ''a.md'', content = js ''alpha'', score = cosineSim [1] [1]\<rparr>,
           \<lparr>title = js ''B'', fileName = js ''b.md'', content = js ''beta'', score = cosineSim [1] [1]\<rparr>]) \<and>
   \<not> num_gt (cosineSim [1] [1]) (cosineSim [1] [1]) \<and>
   retrieveSimilar (\<lambda>_. Inr [1]) (\<lambda>scored. scored)
     (Some \<lparr>records = Some
        [\<lparr>title = js ''A'', fileName = js ''a.md'', content = js ''alpha'', embedding = []\<rparr>,
         \<lparr>title = js ''B'', fileName = js ''b.md'', content = js ''beta'', embedding = [1]\<rparr>]\<rparr>)
     (js ''q'') 4 3000 =
     ([js ''q''],
      Inr [\<lparr>title = js ''A'', fileName = js ''a.md'', content = js ''alpha'', score = NaN\<rparr>,
           \<lparr>title = js ''B'', fileName = js ''b.md'', content = js ''beta'', score = cosineSim [1] [1]\<rparr>]) \<and>
   \<not> num_gt NaN (cosineSim [1] [1])"
  by (simp add: retrieveSimilar_def scored_records_def with_scores_def sort_by_score_def
      cosineSim_def js_def)

text \<open>
  C7, amended: \<open>retrieveSimilar\<close> returns the empty list, without a call of the embedding
  endpoint, when the index is unset or has no records. When the embedding call fails it
  fails with that error. Otherwise, for \<open>topK \<ge> 0\<close>, it returns at most \<open>topK\<close> chunks,
  taken in order from the front of the sorted records; their total content length is at
  most \<open>maxCharsTotal\<close> (or zero when that is negative); each chunk is taken when at least
  200 characters of the budget remain and its content is cut to the remaining budget;
  and when fewer chunks are returned than \<open>topK\<close> and than there are sorted records, fewer
  than 200 characters remain. When every embedding of the index has at least as many
  components as that of the query, so that every score is a number, the sorted records
  are all the records, in descending order of score, records of equal score in the order
  of the index (for every score, the sorted records with that score are the records of
  the index with that score, in the same order); so the scores of the result never
  increase, and equal scores are possible.
\<close>
theorem retrieveSimilar_selection:
  "((RAG_INDEX = None \<or> (\<exists>idx. RAG_INDEX = Some idx \<and> (records idx = None \<or> records idx = Some []))) \<longrightarrow>
      retrieveSimilar embedText engine_order RAG_INDEX query topK maxCharsTotal = ([], Inr [])) \<and>
   (RAG_INDEX = Some idx \<and> records idx = Some recs \<and> recs \<noteq> [] \<and> embedText query = Inl e \<longrightarrow>
      retrieveSimilar embedText engine_order RAG_INDEX query topK maxCharsTotal = ([query], Inl e)) \<and>
   (RAG_INDEX = Some idx \<and> records idx = Some recs \<and> recs \<noteq> [] \<and> embedText query = Inr qVec \<and>
    0 \<le> topK \<longrightarrow>
      (\<exists>res. retrieveSimilar embedText engine_order RAG_INDEX query topK maxCharsTotal = ([query], Inr res) \<and>
         int (length res) \<le> topK \<and>
         total_chars res \<le> max 0 maxCharsTotal \<and>
         length res \<le> length (scored_records engine_order qVec recs) \<and>
         (\<forall>i<length res.
            200 \<le> maxCharsTotal - total_chars (take i res) \<and>
            res ! i =
              \<lparr>title = doc.title (fst (scored_records engine_order qVec recs ! i)),
               fileName = doc.fileName (fst (scored_records engine_order qVec recs ! i)),
               content = take (nat (maxCharsTotal - total_chars (take i res)))
                           (doc.content (fst (scored_records engine_order qVec recs ! i))),
               score = snd (scored_records engine_order qVec recs ! i)\<rparr>) \<and>
         (length res < length (scored_records engine_order qVec recs) \<and> int (length res) < topK \<longrightarrow>
            maxCharsTotal - total_chars res < 200) \<and>
         ((\<forall>r\<in>set recs. length qVec \<le> length (embedding r)) \<longrightarrow>
            length (scored_records engine_order qVec recs) = length recs \<and>
            sorted_wrt (\<lambda>a b. num_ge (snd a) (snd b)) (scored_records engine_order qVec recs) \<and>
            (\<forall>k. filter (\<lambda>p. snd p = k) (scored_records engine_order qVec recs) =
                 filter (\<lambda>p. snd p = k) (with_scores qVec recs)) \<and>
            sorted_wrt num_ge (map score res))))"
proof (intro conjI impI)
  assume "RAG_INDEX = None \<or> (\<exists>idx. RAG_INDEX = Some idx \<and> (records idx = None \<or> records idx = Some []))"
  then show "retrieveSimilar embedText engine_order RAG_INDEX query topK maxCharsTotal = ([], Inr [])"
    by (auto simp: retrieveSimilar_def)
next
  assume "RAG_INDEX = Some idx \<and> records idx = Some recs \<and> recs \<noteq> [] \<and> embedText query = Inl e"
  then show "retrieveSimilar embedText engine_order RAG_INDEX query topK maxCharsTotal = ([query], Inl e)"
    by (simp add: retrieveSimilar_def)
next
  assume a: "RAG_INDEX = Some idx \<and> records idx = Some recs \<and> recs \<noteq> [] \<and> embedText query = Inr qVec \<and>
    0 \<le> topK"
  let ?scored = "scored_records engine_order qVec recs"
  let ?res = "select_from topK maxCharsTotal 0 0 ?scored"
  from a have r: "retrieveSimilar embedText engine_order RAG_INDEX query topK maxCharsTotal = ([query], Inr ?res)"
    by (simp add: retrieveSimilar_def select_loop_eq)
  have 1: "int (length ?res) \<le> topK"
    using select_from_length [of topK maxCharsTotal 0 0 ?scored] a by simp
  have 3: "total_chars ?res \<le> max 0 maxCharsTotal"
    using select_from_total [of topK maxCharsTotal 0 0 ?scored] by simp
  have 4: "length ?res \<le> length ?scored"
    by (rule select_from_le)
  have 5: "\<forall>i<length ?res.
            200 \<le> maxCharsTotal - total_chars (take i ?res) \<and>
            ?res ! i =
              \<lparr>title = doc.title (fst (?scored ! i)),
               fileName = doc.fileName (fst (?scored ! i)),
               content = take (nat (maxCharsTotal - total_chars (take i ?res)))
                           (doc.content (fst (?scored ! i))),
               score = snd (?scored ! i)\<rparr>"
    using select_from_nth [of _ topK maxCharsTotal 0 0 ?scored] by simp
  have 6: "length ?res < length ?scored \<and> int (length ?res) < topK \<longrightarrow>
            maxCharsTotal - total_chars ?res < 200"
    using select_from_stop [of topK maxCharsTotal 0 0 ?scored] by auto
  have 7: "length ?scored = length recs \<and>
            sorted_wrt (\<lambda>a b. num_ge (snd a) (snd b)) ?scored \<and>
            (\<forall>k. filter (\<lambda>p. snd p = k) ?scored = filter (\<lambda>p. snd p = k) (with_scores qVec recs)) \<and>
            sorted_wrt num_ge (map score ?res)"
    if "\<forall>r\<in>set recs. length qVec \<le> length (embedding r)"
  proof -
    from that have n: "list_all (\<lambda>(r, sc). sc \<noteq> NaN) (with_scores qVec recs)"
      by (simp add: with_scores_numbers)
    have l: "length ?scored = length recs"
      using length_sort_by_score [OF n] by (simp add: scored_records_def with_scores_def)
    have s: "sorted_wrt (\<lambda>a b. num_ge (snd a) (snd b)) ?scored"
      unfolding scored_records_def by (rule sort_by_score_descending [OF n])
    have f: "\<forall>k. filter (\<lambda>p. snd p = k) ?scored = filter (\<lambda>p. snd p = k) (with_scores qVec recs)"
      unfolding scored_records_def by (simp add: sort_by_score_stable [OF n])
    from l s f select_from_descending [OF s] show ?thesis by simp
  qed
  from r 1 3 4 5 6 7
  show "\<exists>res. retrieveSimilar embedText engine_order RAG_INDEX query topK maxCharsTotal = ([query], Inr res) \<and>
         int (length res) \<le> topK \<and>
         total_chars res \<le> max 0 maxCharsTotal \<and>
         length res \<le> length (scored_records engine_order qVec recs) \<and>
         (\<forall>i<length res.
            200 \<le> maxCharsTotal - total_chars (take i res) \<and>
            res ! i =
              \<lparr>title = doc.title (fst (scored_records engine_order qVec recs ! i)),
               fileName = doc.fileName (fst (scored_records engine_order qVec recs ! i)),
               content = take (nat (maxCharsTotal - total_chars (take i res)))
                           (doc.content (fst (scored_records engine_order qVec recs ! i))),
               score = snd (scored_records engine_order qVec recs ! i)\<rparr>) \<and>
         (length res < length (scored_records engine_order qVec recs) \<and> int (length res) < topK \<longrightarrow>
            maxCharsTotal - total_chars res < 200) \<and>
         ((\<forall>r\<in>set recs. length qVec \<le> length (embedding r)) \<longrightarrow>
            length (scored_records engine_order qVec recs) = length recs \<and>
            sorted_wrt (\<lambda>a b. num_ge (snd a) (snd b)) (scored_records engine_order qVec recs) \<and>
            (\<forall>k. filter (\<lambda>p. snd p = k) (scored_records engine_order qVec recs) =
                 filter (\<lambda>p. snd p = k) (with_scores qVec recs)) \<and>
            sorted_wrt num_ge (map score res))"
    by blast
qed


theorem retrieveSimilar_selection_witness:
  "retrieveSimilar (\<lambda>_. Inr [1]) (\<lambda>scored. scored) None (js ''q'') 4 500 = ([], Inr []) \<and>
   retrieveSimilar (\<lambda>_. Inl (UpstreamError (js ''Embeddings API error''))) (\<lambda>scored. scored)
     (Some \<lparr>records = Some
        [\<lparr>title = js ''B'', fileName = js ''b.md'', content = js ''beta'', embedding = [- 1]\<rparr>]\<rparr>)
     (js ''q'') 4 500 = ([js ''q''], Inl (UpstreamError (js ''Embeddings API error''))) \<and>
   retrieveSimilar (\<lambda>_. Inr [1]) (\<lambda>scored. scored)
     (Some \<lparr>records = Some
        [\<lparr>title = js ''B'', fileName = js ''b.md'', content = js ''beta'', embedding = [- 1]\<rparr>,
         \<lparr>title = js ''A'', fileName = js ''a.md'', content = replicate 300 97, embedding = [1]\<rparr>,
         \<lparr>title = js ''C'', fileName = js ''c.md'', content = js ''gamma'', embedding = [1]\<rparr>]\<rparr>)
     (js ''q'') 4 500 =
     ([js ''q''],
      Inr [\<lparr>title = js ''A'', fileName = js ''a.md'', content = replicate 300 97,
            score = cosineSim [1] [1]\<rparr>,
           \<lparr>title = js ''C'', fileName = js ''c.md'', content = js ''gamma'',
            score = cosineSim [1] [1]\<rparr>]) \<and>
   total_chars [\<lparr>title = js ''A'', fileName = js ''a.md'', content = replicate 300 97,
                 score = cosineSim [1] [1]\<rparr>,
                \<lparr>title = js ''C'', fileName = js ''c.md'', content = js ''gamma'',
                 score = cosineSim [1] [1]\<rparr>] \<le> max 0 500 \<and>
   500 - total_chars [\<lparr>title = js ''A'', fileName = js ''a.md'', content = replicate 300 97,
                       score = cosineSim [1] [1]\<rparr>,
                      \<lparr>title = js ''C'', fileName = js ''c.md'', content = js ''gamma'',
                       score = cosineSim [1] [1]\<rparr>] < 200 \<and>
   num_ge (cosineSim [1] [1]) (cosineSim [1] [1])"
proof -
  let ?B = "\<lparr>title = js ''B'', fileName = js ''b.md'', content = js ''beta'', embedding = [- 1]\<rparr>"
  let ?A = "\<lparr>title = js ''A'', fileName = js ''a.md'', content = replicate 300 97, embedding = [1]\<rparr>"
  let ?C = "\<lparr>title = js ''C'', fileName = js ''c.md'', content = js ''gamma'', embedding = [1]\<rparr>"
  let ?a = "\<lparr>title = js ''A'', fileName = js ''a.md'', content = replicate 300 97,
             score = cosineSim [1] [1]\<rparr>"
  let ?c = "\<lparr>title = js ''C'', fileName = js ''c.md'', content = js ''gamma'',
             score = cosineSim [1] [1]\<rparr>"
  let ?recs = "[?B, ?A, ?C]"
  let ?idx = "\<lparr>records = Some ?recs\<rparr>"
  let ?idx1 = "\<lparr>records = Some [?B]\<rparr>"
  let ?fail = "\<lambda>_ :: jstring. Inl (UpstreamError (js ''Embeddings API error'')) :: error + real list"
  let ?emb = "\<lambda>_ :: jstring. Inr [1] :: error + real list"
  let ?keep = "\<lambda>scored :: (rag_record \<times> number) list. scored"
  have ev: "retrieveSimilar ?emb ?keep (Some ?idx) (js ''q'') 4 500 = ([js ''q''], Inr [?a, ?c])"
    by (simp add: retrieveSimilar_def scored_records_def with_scores_def sort_by_score_def
        cosineSim_def js_def)
  have h: "Some ?idx = Some ?idx \<and> records ?idx = Some ?recs \<and> ?recs \<noteq> [] \<and>
      ?emb (js ''q'') = Inr [1] \<and> (0::int) \<le> 4"
    by simp
  have nn: "\<forall>r\<in>set ?recs. length [1::real] \<le> length (embedding r)" by simp
  from retrieveSimilar_selection [of "Some ?idx" ?emb ?keep "js ''q''" 4 500 ?idx ?recs _ "[1]",
      THEN conjunct2, THEN conjunct2, rule_format, OF h]
  obtain res where res: "retrieveSimilar ?emb ?keep (Some ?idx) (js ''q'') 4 500 = ([js ''q''], Inr res)"
      "total_chars res \<le> max 0 500"
      "length res < length (scored_records ?keep [1] ?recs) \<and> int (length res) < 4 \<longrightarrow>
         500 - total_chars res < 200"
      "(\<forall>r\<in>set ?recs. length [1::real] \<le> length (embedding r)) \<longrightarrow>
         length (scored_records ?keep [1] ?recs) = length ?recs \<and>
         sorted_wrt (\<lambda>a b. num_ge (snd a) (snd b)) (scored_records ?keep [1] ?recs) \<and>
         (\<forall>k. filter (\<lambda>p. snd p = k) (scored_records ?keep [1] ?recs) =
              filter (\<lambda>p. snd p = k) (with_scores [1] ?recs)) \<and>
         sorted_wrt num_ge (map score res)"
    by blast
  from res(1) ev have eq: "res = [?a, ?c]" by simp
  from res(4) nn have len: "length (scored_records ?keep [1] ?recs) = 3"
    and srt: "sorted_wrt num_ge (map score res)" by simp_all
  from res(3) len eq have stop: "500 - total_chars [?a, ?c] < 200" by simp
  from srt eq have ge: "num_ge (cosineSim [1] [1]) (cosineSim [1] [1])" by simp
  from retrieveSimilar_selection [of None ?emb ?keep "js ''q''" 4 500 ?idx ?recs _ "[1]",
      THEN conjunct1]
  have n: "retrieveSimilar ?emb ?keep None (js ''q'') 4 500 = ([], Inr [])" by simp
  have hf: "Some ?idx1 = Some ?idx1 \<and> records ?idx1 = Some [?B] \<and> [?B] \<noteq> [] \<and>
      ?fail (js ''q'') = Inl (UpstreamError (js ''Embeddings API error''))"
    by simp
  from retrieveSimilar_selection [of "Some ?idx1" ?fail ?keep "js ''q''" 4 500 ?idx1 "[?B]"
        "UpstreamError (js ''Embeddings API error'')" "[1]",
      THEN conjunct2, THEN conjunct1, rule_format, OF hf]
  have f: "retrieveSimilar ?fail ?keep (Some ?idx1) (js ''q'') 4 500 =
      ([js ''q''], Inl (UpstreamError (js ''Embeddings API error'')))" .
  from n f ev res(2) eq stop ge show ?thesis by simp
qed

section \<open>Properties of styleInstruction and buildMessages\<close>

lemma buildMessages_shape:
  "map role (buildMessages native guide userPrompt tone len retrieved) = [System, System, User] \<and>
   content (buildMessages native guide userPrompt tone len retrieved ! 2) = userPrompt \<and>
   content (buildMessages native guide userPrompt tone len retrieved ! 1) =
     js ''Stylistic guidance: '' @ styleInstruction native tone len"
  by (simp add: buildMessages_def Let_def)

lemma buildMessages_without_excerpts:
  "content (buildMessages native guide userPrompt tone len [] ! 0) =
     baseSystem @
     (if guide \<noteq> []
      then [10, 10] @ js ''### VOICE GUIDE (Highest priority)'' @ [10] @ guide @ [10, 10] @
           js ''Follow this guide strictly.''
      else []) @ [10, 10] @ formattingRules"
  by (simp add: buildMessages_def Let_def)

lemma styleInstruction_fallback:
  "tone \<notin> fst ` set toneMap \<Longrightarrow> tone \<notin> set Object_prototype_keys \<Longrightarrow>
   len \<notin> fst ` set lengthMap \<Longrightarrow> len \<notin> set Object_prototype_keys \<Longrightarrow>
   styleInstruction native tone len =
     js ''Use a balanced, approachable professional tone. Target ~900 words with clear sections.''"
proof -
  assume "tone \<notin> fst ` set toneMap" "tone \<notin> set Object_prototype_keys"
    "len \<notin> fst ` set lengthMap" "len \<notin> set Object_prototype_keys"
  then have "map_of toneMap tone = None" "map_of lengthMap len = None"
      "tone \<notin> set Object_prototype_keys" "len \<notin> set Object_prototype_keys"
    by (simp_all add: map_of_eq_None_iff)
  then have "literal_get native toneMap tone = None" "literal_get native lengthMap len = None"
    by (simp_all add: literal_get_def)
  then show ?thesis by (simp add: styleInstruction_def js_def)
qed

lemma styleInstruction_formal_concise:
  "styleInstruction native (js ''formal'') (js ''concise'') =
     js ''Use a formal, executive-ready tone with precise language. Target ~600 words. Be tight and focused.''"
  by (simp add: styleInstruction_def literal_get_def toneMap_def lengthMap_def js_def)

text \<open>
  C9 says that every tone outside the seven known ones resolves to the balanced tone
  phrase. The tone \<open>constructor\<close> is not a key of \<open>toneMap\<close>, but \<open>toneMap["constructor"]\<close>
  is the inherited function \<open>Object\<close>, which is truthy, so the fallback is not taken and
  the style string starts with the source text of that function. The same holds for
  the other property names of \<open>Object.prototype\<close>, and for \<open>length\<close>. The rest
  of the claim holds: see \<open>buildMessages_shape\<close>, \<open>buildMessages_without_excerpts\<close>,
  \<open>styleInstruction_fallback\<close> and \<open>styleInstruction_formal_concise\<close>.
\<close>
theorem styleInstruction_inherited_tone:
  "styleInstruction native (js ''constructor'') (js ''standard'') =
     native (js ''constructor'') @ js '' Target ~900 words with clear sections.'' \<and>
   buildMessages native guide userPrompt (js ''constructor'') (js ''standard'') [] ! 1 =
     \<lparr>role = System,
      content = js ''Stylistic guidance: '' @ native (js ''constructor'') @
                js '' Target ~900 words with clear sections.''\<rparr>"
  by (simp add: buildMessages_def styleInstruction_def literal_get_def toneMap_def lengthMap_def
      Object_prototype_keys_def js_def)

section \<open>Properties of extractUserRequest\<close>



































end
